theory Spec2Isabelle
  imports Main
begin

section \<open>JavaScript values and strings\<close>

text \<open>
  The filter module works on untyped JavaScript values (\<open>any\<close>). The values that product
  data can hold are modelled as a JSON-like datatype. Numbers are the integral ones
  (\<open>centAmount\<close> is an integer number of cents); a \<open>char\<close> stands for one code unit below 256.
\<close>

datatype jsval =
    JUndefined
  | JNull
  | JBool bool
  | JNum int
  | JStr string
  | JArr "jsval list"
  | JObj "(string \<times> jsval) list"

text \<open>
  What the module can throw: \<open>Error msg\<close> is \<open>new Error(msg)\<close> of the module itself,
  \<open>TypeError\<close> is the runtime's error (property read on \<open>undefined\<close>, spreading or
  destructuring a non-iterable), \<open>UnexpectedInput\<close> is the error of the lexer when no token
  pattern matches, \<open>UnexpectedToken\<close> the error of the parser for a token kind with no prefix
  (or infix) rule. \<open>Unmodelled\<close> marks what this model does not compute: a coercion of the
  relational operators (a string compared with a number, an object operand) and a read of
  a property that a built-in prototype may provide.
\<close>

datatype kind =
    MISSING | EXISTS | RANGE | TO | IDENTIFIER | FLOAT | INTEGER | STRING
  | COMMA | LPAREN | COLON | RPAREN | DQUOTE | WS

datatype error =
    Error string
  | TypeError
  | UnexpectedInput
  | UnexpectedToken "kind option"
  | Unmodelled

definition code :: "char \<Rightarrow> nat" where
  "code c = of_char c"

definition is_digit :: "char \<Rightarrow> bool" where
  "is_digit c \<longleftrightarrow> 48 \<le> code c \<and> code c \<le> 57"

definition is_lower :: "char \<Rightarrow> bool" where
  "is_lower c \<longleftrightarrow> 97 \<le> code c \<and> code c \<le> 122"

definition is_upper :: "char \<Rightarrow> bool" where
  "is_upper c \<longleftrightarrow> 65 \<le> code c \<and> code c \<le> 90"

definition to_lower :: "char \<Rightarrow> char" where
  "to_lower c = (if is_upper c then char_of (code c + 32) else c)"

text \<open>\<open>\s\<close> of a JavaScript regular expression, on code units below 256.\<close>

definition is_space :: "char \<Rightarrow> bool" where
  "is_space c \<longleftrightarrow> code c \<in> {9, 10, 11, 12, 13, 32, 160}"

text \<open>The characters that \<open>.\<close> of a regular expression does not match.\<close>

definition line_terminator :: "char \<Rightarrow> bool" where
  "line_terminator c \<longleftrightarrow> code c = 10 \<or> code c = 13"

text \<open>\<open>s.split(sep)\<close> for a one-character separator: never the empty list.\<close>

fun split_on :: "char \<Rightarrow> string \<Rightarrow> string list" where
  "split_on sep [] = [[]]"
| "split_on sep (c # cs) =
     (if c = sep then [] # split_on sep cs
      else (case split_on sep cs of
              [] \<Rightarrow> [[c]]
            | x # xs \<Rightarrow> (c # x) # xs))"

text \<open>\<open>s.split(sep, limit)\<close>: the first \<open>limit\<close> pieces.\<close>

definition split_limit :: "char \<Rightarrow> nat \<Rightarrow> string \<Rightarrow> string list" where
  "split_limit sep limit s = take limit (split_on sep s)"

text \<open>Array destructuring \<open>const [.., x] = xs\<close>: element \<open>i\<close>, or \<open>undefined\<close>.\<close>

fun nth_opt :: "'a list \<Rightarrow> nat \<Rightarrow> 'a option" where
  "nth_opt [] i = None"
| "nth_opt (x # xs) 0 = Some x"
| "nth_opt (x # xs) (Suc i) = nth_opt xs i"

definition startsWith :: "string \<Rightarrow> string \<Rightarrow> bool" where
  "startsWith s pre \<longleftrightarrow> take (length pre) s = pre"

section \<open>The lexer built by getLexer\<close>

text \<open>
  A token pattern is modelled by the function that the anchored regular expression
  computes on the rest of the input: the matched text and capture group 1, or \<open>None\<close>.
\<close>

type_synonym pattern = "string \<Rightarrow> (string \<times> string option) option"

text \<open>Character class \<open>[-_a-z0-9]\<close> under flag \<open>i\<close>, of the keywords' lookahead.\<close>

definition guard_char :: "char \<Rightarrow> bool" where
  "guard_char c \<longleftrightarrow> c = CHR ''-'' \<or> c = CHR ''_'' \<or> is_lower c \<or> is_upper c \<or> is_digit c"

text \<open>Character class \<open>[-_\.a-z]\<close> under flag \<open>i\<close>, of IDENTIFIER: it has no digits.\<close>

definition ident_char :: "char \<Rightarrow> bool" where
  "ident_char c \<longleftrightarrow> c = CHR ''-'' \<or> c = CHR ''_'' \<or> c = CHR ''.'' \<or> is_lower c \<or> is_upper c"

text \<open>\<open>/kw(?![-_a-z0-9]+)/i\<close> for a lower-case keyword \<open>kw\<close>.\<close>

definition re_keyword :: "string \<Rightarrow> pattern" where
  "re_keyword kw s =
     (let n = length kw in
      if map to_lower (take n s) = kw \<and>
         (case drop n s of [] \<Rightarrow> True | c # _ \<Rightarrow> \<not> guard_char c)
      then Some (take n s, None) else None)"

text \<open>\<open>/[-_\.a-z]+/i\<close>\<close>

definition re_identifier :: pattern where
  "re_identifier s =
     (let m = takeWhile ident_char s in if m = [] then None else Some (m, None))"

text \<open>\<open>/\d+\.\d+/\<close>\<close>

definition re_float :: pattern where
  "re_float s =
     (let a = takeWhile is_digit s in
      if a = [] then None
      else (case dropWhile is_digit s of
              [] \<Rightarrow> None
            | c # r \<Rightarrow>
                if c = CHR ''.'' then
                  (let b = takeWhile is_digit r in
                   if b = [] then None else Some (a @ c # b, None))
                else None))"

text \<open>\<open>/\d+/\<close>\<close>

definition re_int :: pattern where
  "re_int s =
     (let m = takeWhile is_digit s in if m = [] then None else Some (m, None))"

text \<open>
  The body \<open>((?:\\.|[^q\\])*)\<close> of a quoted string up to the closing quote \<open>q\<close>: a
  backslash takes the next character with it (any but a line terminator), any other
  character but the quote stands for itself.
\<close>

fun string_body :: "char \<Rightarrow> string \<Rightarrow> string option" where
  "string_body q [] = None"
| "string_body q [c] = (if c = q then Some [] else None)"
| "string_body q (c # d # r) =
     (if c = q then Some []
      else if c = CHR 0x5C then
        (if line_terminator d then None
         else map_option (\<lambda>b. c # d # b) (string_body q r))
      else map_option (\<lambda>b. c # b) (string_body q (d # r)))"

text \<open>\<open>/"((?:\\.|[^"\\])*)"/\<close> and the same with single quotes.\<close>

definition re_string :: "char \<Rightarrow> pattern" where
  "re_string q s =
     (case s of
        [] \<Rightarrow> None
      | c # r \<Rightarrow>
          if c = q then
            (case string_body q r of
               None \<Rightarrow> None
             | Some b \<Rightarrow> Some (q # b @ [q], Some b))
          else None)"

text \<open>A pattern given as a string matches that text.\<close>

definition re_text :: "string \<Rightarrow> pattern" where
  "re_text lit s = (if startsWith s lit then Some (lit, None) else None)"

text \<open>\<open>/\s+/\<close>\<close>

definition re_ws :: pattern where
  "re_ws s =
     (let m = takeWhile is_space s in if m = [] then None else Some (m, None))"

text \<open>The token types in the order getLexer registers them; the flag is \<open>skip\<close>.\<close>

definition getLexer :: "(kind \<times> pattern \<times> bool) list" where
  "getLexer =
     [(MISSING, re_keyword ''missing'', False),
      (EXISTS, re_keyword ''exists'', False),
      (RANGE, re_keyword ''range'', False),
      (TO, re_keyword ''to'', False),
      (IDENTIFIER, re_identifier, False),
      (FLOAT, re_float, False),
      (INTEGER, re_int, False),
      (STRING, re_string (CHR 0x22), False),
      (STRING, re_string (CHR 0x27), False),
      (COMMA, re_text '','', False),
      (LPAREN, re_text ''('', False),
      (COLON, re_text '':'', False),
      (RPAREN, re_text '')'', False),
      (DQUOTE, re_text [CHR 0x22], False),
      (WS, re_ws, True)]"

text \<open>
  Modelled from the spec: the engine of the lexer (the package perplex) is not among the
  sources. At each position it attempts the patterns in their fixed priority order against
  the remaining input and takes the first that matches; a skipped token produces none and
  the scan goes on after it; where no pattern matches, tokenization fails.
\<close>

fun first_match ::
  "(kind \<times> pattern \<times> bool) list \<Rightarrow> string \<Rightarrow> (kind \<times> bool \<times> string \<times> string option) option"
where
  "first_match [] s = None"
| "first_match ((k, re, skip) # tts) s =
     (case re s of
        Some (m, g) \<Rightarrow> Some (k, skip, m, g)
      | None \<Rightarrow> first_match tts s)"

text \<open>A token: its type (\<open>None\<close> for the end of input), the matched text, capture group 1.\<close>

record token =
  ttype :: "kind option"
  tmatch :: string
  tgroup :: "string option"

definition EOF :: token where
  "EOF = \<lparr>ttype = None, tmatch = [], tgroup = None\<rparr>"

text \<open>
  The state of the lexer is the input from its position on. \<open>peek\<close> reads the token there,
  passing over skipped ones; the result carries the input after the token, where \<open>next\<close>
  moves the position.
\<close>

function peek :: "string \<Rightarrow> error + token \<times> string" where
  "peek s =
     (if s = [] then Inr (EOF, [])
      else (case first_match getLexer s of
              None \<Rightarrow> Inl UnexpectedInput
            | Some (k, skip, m, g) \<Rightarrow>
                if skip then peek (drop (length m) s)
                else Inr (\<lparr>ttype = Some k, tmatch = m, tgroup = g\<rparr>, drop (length m) s)))"
  by pat_completeness auto
termination
proof (relation "measure length")
  show "wf (measure length)" by simp
next
  fix s :: string and x2 k y skip ya m g
  assume ne: "s \<noteq> []" and fm: "first_match getLexer s = Some x2"
    and x2: "(k, y) = x2" "(skip, ya) = y" "(m, g) = ya" and sk: skip
  from fm x2 sk have "re_ws s = Some (m, g)"
    by (auto simp: getLexer_def split: option.splits)
  then have "m \<noteq> []"
    by (auto simp: re_ws_def Let_def split: if_splits)
  with ne show "(drop (length m) s, s) \<in> measure length" by simp
qed

declare peek.simps [simp del]

section \<open>The parser built by generateMatchFunc\<close>

text \<open>
  What a rule of the parser yields: a string, a number, an array or a function (a match
  function on a value to test), and \<open>undefined\<close>. A match function returns \<open>None\<close> where the
  comparison it makes is not computed by this model.
\<close>

type_synonym MatchFunc = "jsval \<Rightarrow> bool option"

datatype expr =
    EUndef
  | EStr string
  | ENum int
  | EArr "expr list"
  | EFn MatchFunc

text \<open>
  Modelled from the spec: the engine of the parser (the package pratt) is not among the
  sources. Binding powers are numbers: the registered ones; the engine gives \<open>-Infinity\<close> to
  the end of input and \<open>Infinity\<close> to a token type that registers none.
\<close>

datatype bpow = NegInf | Fin int | PosInf

fun bp_less :: "bpow \<Rightarrow> bpow \<Rightarrow> bool" where
  "bp_less NegInf NegInf = False"
| "bp_less NegInf b = True"
| "bp_less (Fin a) NegInf = False"
| "bp_less (Fin a) (Fin b) = (a < b)"
| "bp_less (Fin a) PosInf = True"
| "bp_less PosInf b = False"

text \<open>\<open>bp - 1\<close>\<close>

fun bp_pred :: "bpow \<Rightarrow> bpow" where
  "bp_pred (Fin b) = Fin (b - 1)"
| "bp_pred b = b"

text \<open>The binding powers that the calls of \<open>nud\<close>, \<open>led\<close> and \<open>bp\<close> on the builder register.\<close>

definition bp :: "token \<Rightarrow> bpow" where
  "bp t =
     (case ttype t of
        None \<Rightarrow> NegInf
      | Some IDENTIFIER \<Rightarrow> Fin 100
      | Some COLON \<Rightarrow> Fin 100
      | Some STRING \<Rightarrow> Fin 20
      | Some INTEGER \<Rightarrow> Fin 5
      | Some EXISTS \<Rightarrow> Fin 10
      | Some MISSING \<Rightarrow> Fin 10
      | Some COMMA \<Rightarrow> Fin 200
      | Some RPAREN \<Rightarrow> Fin 0
      | Some TO \<Rightarrow> Fin 20
      | Some RANGE \<Rightarrow> Fin 20
      | Some _ \<Rightarrow> PosInf)"

text \<open>
  \<open>parseInt(match, 10)\<close> on the digits of an INT token. The result is exact up to
  \<open>2 ^ 53\<close>; beyond, the runtime rounds to a double.
\<close>

definition parseInt :: "string \<Rightarrow> int" where
  "parseInt ds = foldl (\<lambda>a c. 10 * a + (int (code c) - 48)) 0 ds"

text \<open>
  \<open>obj === expr\<close> for a value of product data and a result of the parser. Arrays and
  functions are compared by identity, and product data holds none that the parser made.
\<close>

fun strict_eq :: "jsval \<Rightarrow> expr \<Rightarrow> bool" where
  "strict_eq JUndefined EUndef = True"
| "strict_eq (JStr s) (EStr t) = (s = t)"
| "strict_eq (JNum m) (ENum n) = (m = n)"
| "strict_eq obj e = False"

text \<open>\<open>expr.includes(obj)\<close>\<close>

definition array_includes :: "expr list \<Rightarrow> jsval \<Rightarrow> bool" where
  "array_includes xs obj = list_ex (strict_eq obj) xs"

text \<open>\<open>s < t\<close> on strings: by code units, a proper prefix first.\<close>

fun str_less :: "string \<Rightarrow> string \<Rightarrow> bool" where
  "str_less [] [] = False"
| "str_less [] (y # ys) = True"
| "str_less (x # xs) [] = False"
| "str_less (x # xs) (y # ys) = (if x = y then str_less xs ys else code x < code y)"

text \<open>
  \<open>obj >= b\<close> and \<open>obj <= b\<close>. An \<open>undefined\<close> operand becomes NaN and the comparison is
  false; two numbers and two strings are compared as such; \<open>null\<close> and booleans become
  numbers. The other coercions are not computed.
\<close>

fun js_rel :: "(int \<Rightarrow> int \<Rightarrow> bool) \<Rightarrow> (string \<Rightarrow> string \<Rightarrow> bool) \<Rightarrow> jsval \<Rightarrow> expr \<Rightarrow> bool option"
where
  "js_rel ni si JUndefined b = Some False"
| "js_rel ni si obj EUndef = Some False"
| "js_rel ni si (JNum m) (ENum n) = Some (ni m n)"
| "js_rel ni si (JStr s) (EStr t) = Some (si s t)"
| "js_rel ni si JNull (ENum n) = Some (ni 0 n)"
| "js_rel ni si (JBool c) (ENum n) = Some (ni (if c then 1 else 0) n)"
| "js_rel ni si obj b = None"

definition js_ge :: "jsval \<Rightarrow> expr \<Rightarrow> bool option" where
  "js_ge = js_rel (\<lambda>m n. m \<ge> n) (\<lambda>s t. \<not> str_less s t)"

definition js_le :: "jsval \<Rightarrow> expr \<Rightarrow> bool option" where
  "js_le = js_rel (\<lambda>m n. m \<le> n) (\<lambda>s t. \<not> str_less t s)"

text \<open>\<open>obj >= start && obj <= stop\<close>\<close>

definition range_match :: "expr \<Rightarrow> expr \<Rightarrow> MatchFunc" where
  "range_match start stop obj =
     (case js_ge obj start of
        None \<Rightarrow> None
      | Some False \<Rightarrow> Some False
      | Some True \<Rightarrow> js_le obj stop)"

text \<open>
  \<open>const [start, stop] = v\<close>: the first two elements of an array or characters of a
  string, \<open>undefined\<close> where there is none; a number, a function and \<open>undefined\<close> are not
  iterable.
\<close>

definition destructure2 :: "expr \<Rightarrow> error + expr \<times> expr" where
  "destructure2 v =
     (case v of
        EArr xs \<Rightarrow>
          Inr (case_option EUndef id (nth_opt xs 0), case_option EUndef id (nth_opt xs 1))
      | EStr s \<Rightarrow>
          Inr (case_option EUndef (\<lambda>c. EStr [c]) (nth_opt s 0),
               case_option EUndef (\<lambda>c. EStr [c]) (nth_opt s 1))
      | _ \<Rightarrow> Inl TypeError)"

type_synonym presult = "(error + expr \<times> string) option"

text \<open>
  The prefix rules that generateMatchFunc registers with \<open>nud\<close>, on the token \<open>t\<close> just
  read and the input after it. \<open>parser\<close> is \<open>parser.parse\<close>, which the rule of RANGE calls
  after it has taken one token from the lexer. A token type without a prefix rule is an
  error of the parser.
\<close>

definition nud :: "(bpow \<Rightarrow> string \<Rightarrow> presult) \<Rightarrow> token \<Rightarrow> string \<Rightarrow> presult" where
  "nud parser t s =
     (case ttype t of
        Some IDENTIFIER \<Rightarrow> Some (Inr (EStr (tmatch t), s))
      | Some STRING \<Rightarrow> Some (Inr (case_option EUndef EStr (tgroup t), s))
      | Some INTEGER \<Rightarrow> Some (Inr (ENum (parseInt (tmatch t)), s))
      | Some EXISTS \<Rightarrow> Some (Inr (EFn (\<lambda>val. Some (val \<noteq> JUndefined)), s))
      | Some MISSING \<Rightarrow> Some (Inr (EFn (\<lambda>val. Some (val = JUndefined)), s))
      | Some RANGE \<Rightarrow>
          (case peek s of
             Inl e \<Rightarrow> Some (Inl e)
           | Inr (skipped, s1) \<Rightarrow>
               (case parser (Fin 0) s1 of
                  None \<Rightarrow> None
                | Some (Inl e) \<Rightarrow> Some (Inl e)
                | Some (Inr (pair, s2)) \<Rightarrow>
                    (case destructure2 pair of
                       Inl e \<Rightarrow> Some (Inl e)
                     | Inr (start, stop) \<Rightarrow> Some (Inr (EFn (range_match start stop), s2)))))
      | _ \<Rightarrow> Some (Inl (UnexpectedToken (ttype t))))"

text \<open>
  The infix rules registered with \<open>led\<close>, on the operator token \<open>t\<close>, the left operand and
  the input after the operator. Each parses its right operand with terminal \<open>bp - 1\<close>.
\<close>

definition led :: "(bpow \<Rightarrow> string \<Rightarrow> presult) \<Rightarrow> token \<Rightarrow> expr \<Rightarrow> string \<Rightarrow> presult" where
  "led parser t left s =
     (case ttype t of
        Some COLON \<Rightarrow>
          (case parser (bp_pred (bp t)) s of
             None \<Rightarrow> None
           | Some (Inl e) \<Rightarrow> Some (Inl e)
           | Some (Inr (e, s1)) \<Rightarrow>
               Some (Inr (case e of
                            EArr xs \<Rightarrow> EFn (\<lambda>obj. Some (array_includes xs obj))
                          | EFn f \<Rightarrow> EFn (\<lambda>obj. f obj)
                          | _ \<Rightarrow> EFn (\<lambda>obj. Some (strict_eq obj e)), s1)))
      | Some COMMA \<Rightarrow>
          (case parser (bp_pred (bp t)) s of
             None \<Rightarrow> None
           | Some (Inl e) \<Rightarrow> Some (Inl e)
           | Some (Inr (e, s1)) \<Rightarrow>
               Some (Inr (case e of
                            EArr xs \<Rightarrow> EArr (left # xs)
                          | _ \<Rightarrow> EArr [left, e], s1)))
      | Some TO \<Rightarrow>
          (case parser (bp_pred (bp t)) s of
             None \<Rightarrow> None
           | Some (Inl e) \<Rightarrow> Some (Inl e)
           | Some (Inr (e, s1)) \<Rightarrow> Some (Inr (EArr [left, e], s1)))
      | _ \<Rightarrow> Some (Inl (UnexpectedToken (ttype t))))"

text \<open>
  Modelled from the spec: \<open>parser.parse({terminals: [rbp]})\<close> of the parser engine, which is
  not among the sources. It applies the prefix rule of the next token, then, as long as the
  token that follows binds tighter than \<open>rbp\<close>, the infix rule of that token to the result so
  far. The rules call the parser again; the first argument bounds the depth of these calls
  and the turns of the loop, and \<open>None\<close> means that the bound was reached (it never is from
  generateMatchFunc: see \<open>generateMatchFunc_total\<close>).
\<close>

fun parse :: "nat \<Rightarrow> bpow \<Rightarrow> string \<Rightarrow> presult"
and parse_loop :: "nat \<Rightarrow> bpow \<Rightarrow> expr \<Rightarrow> string \<Rightarrow> presult"
where
  "parse 0 rbp s = None"
| "parse (Suc n) rbp s =
     (case peek s of
        Inl e \<Rightarrow> Some (Inl e)
      | Inr (t, s1) \<Rightarrow>
          (case nud (parse n) t s1 of
             None \<Rightarrow> None
           | Some (Inl e) \<Rightarrow> Some (Inl e)
           | Some (Inr (left, s2)) \<Rightarrow> parse_loop n rbp left s2))"
| "parse_loop 0 rbp left s = None"
| "parse_loop (Suc n) rbp left s =
     (case peek s of
        Inl e \<Rightarrow> Some (Inl e)
      | Inr (t, s1) \<Rightarrow>
          if bp_less rbp (bp t) then
            (case led (parse n) t left s1 of
               None \<Rightarrow> None
             | Some (Inl e) \<Rightarrow> Some (Inl e)
             | Some (Inr (left', s2)) \<Rightarrow> parse_loop n rbp left' s2)
          else Some (Inr (left, s)))"

text \<open>
  generateMatchFunc: one expression parsed from the whole filter; a result that is not a
  function is a syntax error. The column is computed and not used. The depth bound given
  to the parser is one more than the length of the filter.
\<close>

definition generateMatchFunc :: "string \<Rightarrow> (error + MatchFunc) option" where
  "generateMatchFunc fltr =
     (case parse (Suc (length fltr)) (Fin 0) fltr of
        None \<Rightarrow> None
      | Some (Inl e) \<Rightarrow> Some (Inl e)
      | Some (Inr (result, rest)) \<Rightarrow>
          (case result of
             EFn f \<Rightarrow> Some (Inr f)
           | _ \<Rightarrow>
               (let lines = split_on (CHR 0x0A) fltr;
                    column = (case nth_opt lines (length lines - 1) of
                                None \<Rightarrow> None
                              | Some l \<Rightarrow> Some (length l))
                in Some (Inl (Error (''Syntax error while parsing '' @ [CHR 0x27] @ fltr @
                                     [CHR 0x27] @ ''.''))))))"

section \<open>Products and the path resolver\<close>

text \<open>
  The part of the product that the module reads. Both projections of \<open>masterData\<close> may be
  absent (the module reads them with \<open>?.\<close>); a variant's \<open>sku\<close>, \<open>key\<close>, \<open>attributes\<close>,
  \<open>prices\<close> and \<open>scopedPrice\<close> are optional. \<open>isMatchingVariant\<close> is the flag that a filter
  sets on the variant that matched.
\<close>

record money =
  centAmount :: int

record price =
  price_value :: money

record scoped_price =
  scoped_value :: money

record attribute =
  attr_name :: string
  attr_value :: jsval

record variant =
  sku :: "string option"
  key :: "string option"
  attributes :: "attribute list option"
  prices :: "price list option"
  scopedPrice :: "scoped_price option"
  isMatchingVariant :: bool

record product_data =
  masterVariant :: variant
  variants :: "variant list"

record master_data =
  current :: "product_data option"
  staged :: "product_data option"

record product =
  masterData :: master_data

type_synonym ProductFilter = "product \<Rightarrow> bool \<Rightarrow> error + bool \<times> product"

text \<open>A variant as the object whose properties resolveValue reads.\<close>

definition field :: "string \<Rightarrow> jsval option \<Rightarrow> (string \<times> jsval) list" where
  "field k v = (case v of None \<Rightarrow> [] | Some x \<Rightarrow> [(k, x)])"

definition money_js :: "money \<Rightarrow> jsval" where
  "money_js m = JObj [(''centAmount'', JNum (centAmount m))]"

definition price_js :: "price \<Rightarrow> jsval" where
  "price_js pr = JObj [(''value'', money_js (price_value pr))]"

definition attribute_js :: "attribute \<Rightarrow> jsval" where
  "attribute_js a = JObj [(''name'', JStr (attr_name a)), (''value'', attr_value a)]"

definition variant_js :: "variant \<Rightarrow> jsval" where
  "variant_js v =
     JObj (field ''sku'' (map_option JStr (sku v)) @
           field ''key'' (map_option JStr (key v)) @
           field ''attributes'' (map_option (\<lambda>as. JArr (map attribute_js as)) (attributes v)) @
           field ''prices'' (map_option (\<lambda>ps. JArr (map price_js ps)) (prices v)) @
           field ''scopedPrice''
             (map_option (\<lambda>sp. JObj [(''value'', money_js (scoped_value sp))]) (scopedPrice v)) @
           (if isMatchingVariant v then [(''isMatchingVariant'', JBool True)] else []))"

text \<open>An array index written as a property name: \<open>0\<close>, or digits that do not start with 0.\<close>

definition array_index :: "string \<Rightarrow> nat option" where
  "array_index part =
     (if part = ''0'' then Some 0
      else if part \<noteq> [] \<and> list_all is_digit part \<and> take 1 part \<noteq> ''0''
        then Some (nat (parseInt part))
      else None)"

text \<open>The names of the properties that every object inherits from \<open>Object.prototype\<close>.\<close>

definition object_prototype_names :: "string list" where
  "object_prototype_names =
     [''constructor'', ''__defineGetter__'', ''__defineSetter__'', ''hasOwnProperty'',
      ''__lookupGetter__'', ''__lookupSetter__'', ''isPrototypeOf'', ''propertyIsEnumerable'',
      ''toString'', ''valueOf'', ''__proto__'', ''toLocaleString'']"

text \<open>
  \<open>val[part]\<close>: a TypeError on \<open>undefined\<close> and \<open>null\<close>. On an object, the own property of that
  name; without one, \<open>undefined\<close>, unless the name is one that the object inherits: the value
  of an inherited property is not computed. On a string and an array, the length and the
  element at an index (\<open>undefined\<close> beyond the end); on these for another name, and on a
  number and a boolean, the property comes, if at all, from the prototype of the runtime
  and is not computed.
\<close>

fun js_get :: "jsval \<Rightarrow> string \<Rightarrow> error + jsval" where
  "js_get JUndefined part = Inl TypeError"
| "js_get JNull part = Inl TypeError"
| "js_get (JObj kvs) part =
     (case map_of kvs part of
        Some v \<Rightarrow> Inr v
      | None \<Rightarrow> if part \<in> set object_prototype_names then Inl Unmodelled else Inr JUndefined)"
| "js_get (JStr s) part =
     (if part = ''length'' then Inr (JNum (int (length s)))
      else (case array_index part of
              None \<Rightarrow> Inl Unmodelled
            | Some i \<Rightarrow> Inr (case nth_opt s i of None \<Rightarrow> JUndefined | Some c \<Rightarrow> JStr [c])))"
| "js_get (JArr xs) part =
     (if part = ''length'' then Inr (JNum (int (length xs)))
      else (case array_index part of
              None \<Rightarrow> Inl Unmodelled
            | Some i \<Rightarrow> Inr (case nth_opt xs i of None \<Rightarrow> JUndefined | Some x \<Rightarrow> x)))"
| "js_get (JBool b) part = Inl Unmodelled"
| "js_get (JNum n) part = Inl Unmodelled"

text \<open>The loop of resolveValue: \<open>for (let i = 0; i < parts.length; i++) val = val[parts[i]]\<close>.\<close>

function resolveValue_loop :: "string list \<Rightarrow> nat \<Rightarrow> jsval \<Rightarrow> error + jsval" where
  "resolveValue_loop parts i val =
     (if i < length parts then
        (case js_get val (parts ! i) of
           Inl e \<Rightarrow> Inl e
         | Inr v \<Rightarrow> resolveValue_loop parts (i + 1) v)
      else Inr val)"
  by pat_completeness auto
termination
  by (relation "measure (\<lambda>(parts, i, val). length parts - i)") auto

declare resolveValue_loop.simps [simp del]

text \<open>resolveValue; the path \<open>None\<close> is \<open>undefined\<close>.\<close>

definition resolveValue :: "jsval \<Rightarrow> string option \<Rightarrow> error + jsval" where
  "resolveValue obj path =
     (case path of
        None \<Rightarrow> Inr obj
      | Some p \<Rightarrow> resolveValue_loop (split_on (CHR ''.'') p) 0 obj)"

section \<open>The filters\<close>

text \<open>
  getVariants: the master variant, then the variants, of the projection that the flag
  selects. Spreading the variants of an absent projection is a TypeError.
\<close>

definition getVariants :: "product \<Rightarrow> bool \<Rightarrow> error + variant list" where
  "getVariants p stg =
     (case (if stg then staged (masterData p) else current (masterData p)) of
        None \<Rightarrow> Inl TypeError
      | Some d \<Rightarrow> Inr (masterVariant d # variants d))"

text \<open>
  The array of getVariants holds the variant objects of the product: a flag set on one of
  them is set in the product. \<open>storeVariants\<close> puts the variants back where they came from.
\<close>

definition storeVariants :: "product \<Rightarrow> bool \<Rightarrow> variant list \<Rightarrow> product" where
  "storeVariants p stg vs =
     (case vs of
        [] \<Rightarrow> p
      | m # rest \<Rightarrow>
          (let d = \<lparr>masterVariant = m, variants = rest\<rparr> in
           if stg then p\<lparr>masterData := (masterData p)\<lparr>staged := Some d\<rparr>\<rparr>
           else p\<lparr>masterData := (masterData p)\<lparr>current := Some d\<rparr>\<rparr>))"

text \<open>
  The end of each loop body: \<open>if (exprFunc(value)) { if (markMatchingVariant)
  variant.isMatchingVariant = true; return true }; return false\<close>.
\<close>

definition decide :: "bool option \<Rightarrow> bool \<Rightarrow> variant \<Rightarrow> error + bool \<times> variant" where
  "decide matched markMatchingVariant v =
     (case matched of
        None \<Rightarrow> Inl Unmodelled
      | Some True \<Rightarrow> Inr (True, if markMatchingVariant then v\<lparr>isMatchingVariant := True\<rparr> else v)
      | Some False \<Rightarrow> Inr (False, v))"

definition finish :: "product \<Rightarrow> bool \<Rightarrow> error + bool \<times> variant list \<Rightarrow> error + bool \<times> product" where
  "finish p stg r =
     (case r of
        Inl e \<Rightarrow> Inl e
      | Inr (b, vs) \<Rightarrow> Inr (b, storeVariants p stg vs))"

text \<open>A turn of a loop that goes on to the next variant (\<open>continue\<close>).\<close>

definition continue :: "variant \<Rightarrow> error + bool \<times> variant list \<Rightarrow> error + bool \<times> variant list" where
  "continue v r =
     (case r of
        Inl e \<Rightarrow> Inl e
      | Inr (b, vs) \<Rightarrow> Inr (b, v # vs))"

text \<open>filterVariant: the loop body returns on the first variant.\<close>

fun filterVariant_loop ::
  "MatchFunc \<Rightarrow> string option \<Rightarrow> bool \<Rightarrow> variant list \<Rightarrow> error + bool \<times> variant list"
where
  "filterVariant_loop exprFunc path markMatchingVariant [] = Inr (False, [])"
| "filterVariant_loop exprFunc path markMatchingVariant (v # rest) =
     (case resolveValue (variant_js v) path of
        Inl e \<Rightarrow> Inl e
      | Inr val \<Rightarrow>
          (case decide (exprFunc val) markMatchingVariant v of
             Inl e \<Rightarrow> Inl e
           | Inr (b, v') \<Rightarrow> Inr (b, v' # rest)))"

definition filterVariant :: "string \<Rightarrow> bool \<Rightarrow> MatchFunc \<Rightarrow> ProductFilter" where
  "filterVariant source stg exprFunc p markMatchingVariant =
     (let path = nth_opt (split_limit (CHR ''.'') 2 source) 1 in
      case getVariants p stg of
        Inl e \<Rightarrow> Inl e
      | Inr vs \<Rightarrow> finish p stg (filterVariant_loop exprFunc path markMatchingVariant vs))"

text \<open>
  filterAttribute: the inner loop passes over the attributes of another name and returns
  on the first one of the name asked for; \<open>None\<close> means that it ended without returning.
  The outer loop passes over a variant without attributes, and goes on to the next variant
  when the inner loop ended without returning.
\<close>

fun attribute_loop ::
  "MatchFunc \<Rightarrow> string option \<Rightarrow> string option \<Rightarrow> attribute list \<Rightarrow> (error + bool option) option"
where
  "attribute_loop exprFunc attrName path [] = None"
| "attribute_loop exprFunc attrName path (attr # rest) =
     (if Some (attr_name attr) \<noteq> attrName then attribute_loop exprFunc attrName path rest
      else (case resolveValue (attr_value attr) path of
              Inl e \<Rightarrow> Some (Inl e)
            | Inr val \<Rightarrow> Some (Inr (exprFunc val))))"

fun filterAttribute_loop ::
  "MatchFunc \<Rightarrow> string option \<Rightarrow> string option \<Rightarrow> bool \<Rightarrow> variant list
     \<Rightarrow> error + bool \<times> variant list"
where
  "filterAttribute_loop exprFunc attrName path markMatchingVariant [] = Inr (False, [])"
| "filterAttribute_loop exprFunc attrName path markMatchingVariant (v # rest) =
     (case attributes v of
        None \<Rightarrow> continue v (filterAttribute_loop exprFunc attrName path markMatchingVariant rest)
      | Some attrs \<Rightarrow>
          (case attribute_loop exprFunc attrName path attrs of
             None \<Rightarrow>
               continue v (filterAttribute_loop exprFunc attrName path markMatchingVariant rest)
           | Some (Inl e) \<Rightarrow> Inl e
           | Some (Inr matched) \<Rightarrow>
               (case decide matched markMatchingVariant v of
                  Inl e \<Rightarrow> Inl e
                | Inr (b, v') \<Rightarrow> Inr (b, v' # rest))))"

definition filterAttribute :: "string \<Rightarrow> bool \<Rightarrow> MatchFunc \<Rightarrow> ProductFilter" where
  "filterAttribute source stg exprFunc p markMatchingVariant =
     (let parts = split_limit (CHR ''.'') 4 source;
          attrName = nth_opt parts 2;
          path = nth_opt parts 3 in
      case getVariants p stg of
        Inl e \<Rightarrow> Inl e
      | Inr vs \<Rightarrow>
          finish p stg (filterAttribute_loop exprFunc attrName path markMatchingVariant vs))"

text \<open>
  filterPrice: the loop passes over a variant without prices and returns on the first
  variant that has them, on its first price. Reading \<open>value\<close> of the first price of an
  empty array is a TypeError.
\<close>

fun filterPrice_loop :: "MatchFunc \<Rightarrow> bool \<Rightarrow> variant list \<Rightarrow> error + bool \<times> variant list" where
  "filterPrice_loop exprFunc markMatchingVariant [] = Inr (False, [])"
| "filterPrice_loop exprFunc markMatchingVariant (v # rest) =
     (case prices v of
        None \<Rightarrow> continue v (filterPrice_loop exprFunc markMatchingVariant rest)
      | Some [] \<Rightarrow> Inl TypeError
      | Some (pr # others) \<Rightarrow>
          (case decide (exprFunc (JNum (centAmount (price_value pr)))) markMatchingVariant v of
             Inl e \<Rightarrow> Inl e
           | Inr (b, v') \<Rightarrow> Inr (b, v' # rest)))"

definition filterPrice :: "string \<Rightarrow> bool \<Rightarrow> MatchFunc \<Rightarrow> ProductFilter" where
  "filterPrice source stg exprFunc p markMatchingVariant =
     (case getVariants p stg of
        Inl e \<Rightarrow> Inl e
      | Inr vs \<Rightarrow> finish p stg (filterPrice_loop exprFunc markMatchingVariant vs))"

text \<open>
  filterScopedPrice: the source is checked when the filter is applied; the loop body
  returns on the first variant, on \<open>variant.scopedPrice?.value.centAmount\<close>.
\<close>

fun filterScopedPrice_loop ::
  "MatchFunc \<Rightarrow> bool \<Rightarrow> variant list \<Rightarrow> error + bool \<times> variant list"
where
  "filterScopedPrice_loop exprFunc markMatchingVariant [] = Inr (False, [])"
| "filterScopedPrice_loop exprFunc markMatchingVariant (v # rest) =
     (let val = (case scopedPrice v of
                   None \<Rightarrow> JUndefined
                 | Some sp \<Rightarrow> JNum (centAmount (scoped_value sp))) in
      case decide (exprFunc val) markMatchingVariant v of
        Inl e \<Rightarrow> Inl e
      | Inr (b, v') \<Rightarrow> Inr (b, v' # rest))"

definition filterScopedPrice :: "string \<Rightarrow> bool \<Rightarrow> MatchFunc \<Rightarrow> ProductFilter" where
  "filterScopedPrice source stg exprFunc p markMatchingVariant =
     (if source \<noteq> ''variants.scopedPrice.value.centAmount'' then
        Inl (Error ''Only scopedPrice.value.centAmount is currently supported in the mock'')
      else (case getVariants p stg of
              Inl e \<Rightarrow> Inl e
            | Inr vs \<Rightarrow> finish p stg (filterScopedPrice_loop exprFunc markMatchingVariant vs)))"

text \<open>
  parseFilterExpression: the source is the text before the first colon; the whole filter is
  compiled first, then the source selects the filter.
\<close>

definition parseFilterExpression :: "string \<Rightarrow> bool \<Rightarrow> (error + ProductFilter) option" where
  "parseFilterExpression fltr stg =
     (let source = nth_opt (split_limit (CHR '':'') 2 fltr) 0 in
      case generateMatchFunc fltr of
        None \<Rightarrow> None
      | Some (Inl e) \<Rightarrow> Some (Inl e)
      | Some (Inr exprFunc) \<Rightarrow>
          (case source of
             None \<Rightarrow> Some (Inl TypeError)
           | Some source \<Rightarrow>
               Some (Inr
                 (if startsWith source ''variants.attributes'' then
                    filterAttribute source stg exprFunc
                  else if startsWith source ''variants.price'' then
                    filterPrice source stg exprFunc
                  else if startsWith source ''variants.scopedPrice'' then
                    filterScopedPrice source stg exprFunc
                  else if startsWith source ''variants.sku'' \<or> startsWith source ''variants.key'' then
                    filterVariant source stg exprFunc
                  else (\<lambda>p markMatchingVariant. Inr (False, p))))))"

section \<open>Observing a compilation and an application\<close>

text \<open>The error that a call raised, if it raised one.\<close>

definition failure :: "(error + 'a) option \<Rightarrow> error option" where
  "failure r = (case r of Some (Inl e) \<Rightarrow> Some e | _ \<Rightarrow> None)"

text \<open>The call returned a value.\<close>

definition returned :: "(error + 'a) option \<Rightarrow> bool" where
  "returned r = (case r of Some (Inr x) \<Rightarrow> True | _ \<Rightarrow> False)"

text \<open>What applying a filter gives, leaving the product out: an error or the boolean.\<close>

definition outcome :: "error + bool \<times> product \<Rightarrow> error + bool" where
  "outcome r = map_sum id fst r"

text \<open>generateMatchFunc, then the match function applied to a value.\<close>

definition applyMatch :: "string \<Rightarrow> jsval \<Rightarrow> (error + bool option) option" where
  "applyMatch fltr val =
     (case generateMatchFunc fltr of
        None \<Rightarrow> None
      | Some (Inl e) \<Rightarrow> Some (Inl e)
      | Some (Inr exprFunc) \<Rightarrow> Some (Inr (exprFunc val)))"

text \<open>
  parseFilterExpression, then the filter applied to a product. The outer error is one of
  the compilation, the inner one of the application.
\<close>

definition applyFilter ::
  "string \<Rightarrow> bool \<Rightarrow> product \<Rightarrow> bool \<Rightarrow> (error + error + bool \<times> product) option"
where
  "applyFilter fltr stg p markMatchingVariant =
     (case parseFilterExpression fltr stg of
        None \<Rightarrow> None
      | Some (Inl e) \<Rightarrow> Some (Inl e)
      | Some (Inr pf) \<Rightarrow> Some (Inr (pf p markMatchingVariant)))"

text \<open>
  The reading of the path resolver that the specification gives: the root indexed with
  each segment in turn, from left to right.
\<close>

fun index_all :: "jsval \<Rightarrow> string list \<Rightarrow> error + jsval" where
  "index_all val [] = Inr val"
| "index_all val (part # parts) =
     (case js_get val part of
        Inl e \<Rightarrow> Inl e
      | Inr v \<Rightarrow> index_all v parts)"

text \<open>A product both of whose projections are absent.\<close>

definition no_projection :: product where
  "no_projection = \<lparr>masterData = \<lparr>current = None, staged = None\<rparr>\<rparr>"

section \<open>Filter texts and products for the statements\<close>

text \<open>
  The text of a literal that the lexer reads as one STRING or INT token: a quote, a body
  and the same quote, or digits; and the value that the prefix rule of that token yields.
  The digits are those of a number up to \<open>2 ^ 53\<close>, which parseInt gives exactly.
\<close>

datatype lit = StrLit char string | IntLit string

fun literal_text :: "lit \<Rightarrow> string" where
  "literal_text (StrLit q b) = q # b @ [q]"
| "literal_text (IntLit ds) = ds"

fun literal_value :: "lit \<Rightarrow> expr" where
  "literal_value (StrLit q b) = EStr b"
| "literal_value (IntLit ds) = ENum (parseInt ds)"

fun wf_literal :: "lit \<Rightarrow> bool" where
  "wf_literal (StrLit q b) \<longleftrightarrow>
     (q = CHR 0x22 \<or> q = CHR 0x27) \<and> string_body q (b @ [q]) = Some b"
| "wf_literal (IntLit ds) \<longleftrightarrow>
     ds \<noteq> [] \<and> list_all is_digit ds \<and> parseInt ds \<le> 9007199254740992"

text \<open>Literals separated by commas, and what the parser yields for them.\<close>

fun comma_text :: "lit list \<Rightarrow> string" where
  "comma_text [] = []"
| "comma_text [l] = literal_text l"
| "comma_text (l # ls) = literal_text l @ CHR '','' # comma_text ls"

fun comma_value :: "lit list \<Rightarrow> expr" where
  "comma_value [l] = literal_value l"
| "comma_value ls = EArr (map literal_value ls)"

text \<open>One of the keyword patterns matches at the start of the input.\<close>

definition keyword_start :: "string \<Rightarrow> bool" where
  "keyword_start s \<longleftrightarrow>
     re_keyword ''missing'' s \<noteq> None \<or> re_keyword ''exists'' s \<noteq> None \<or>
     re_keyword ''range'' s \<noteq> None \<or> re_keyword ''to'' s \<noteq> None"

text \<open>
  A path that the lexer reads, before a colon, as one IDENTIFIER token: letters, \<open>-\<close>, \<open>_\<close>
  and \<open>.\<close>, with no keyword token at its start.
\<close>

definition identifier_text :: "string \<Rightarrow> bool" where
  "identifier_text P \<longleftrightarrow> P \<noteq> [] \<and> list_all ident_char P \<and> \<not> keyword_start (P @ '':'')"

text \<open>The first attribute of a name, looking through the variants in their order.\<close>

definition first_attribute :: "string \<Rightarrow> variant list \<Rightarrow> attribute option" where
  "first_attribute name vs =
     find (\<lambda>a. attr_name a = name)
       (concat (map (\<lambda>v. case attributes v of None \<Rightarrow> [] | Some attrs \<Rightarrow> attrs) vs))"

text \<open>
  The first attribute whose name is \<open>attrName\<close>, looking through the variants in their
  order; no attribute has the name \<open>undefined\<close>.
\<close>

definition first_named :: "string option \<Rightarrow> variant list \<Rightarrow> attribute option" where
  "first_named attrName vs =
     find (\<lambda>a. Some (attr_name a) = attrName)
       (concat (map (\<lambda>v. case attributes v of None \<Rightarrow> [] | Some attrs \<Rightarrow> attrs) vs))"

text \<open>
  What a filter returns once the value to test is resolved: the error of the resolution,
  or the boolean of the match function on the value.
\<close>

definition verdict :: "MatchFunc \<Rightarrow> error + jsval \<Rightarrow> error + bool" where
  "verdict exprFunc r =
     (case r of
        Inl e \<Rightarrow> Inl e
      | Inr val \<Rightarrow> (case exprFunc val of None \<Rightarrow> Inl Unmodelled | Some b \<Rightarrow> Inr b))"

text \<open>The prices of the first variant that has prices.\<close>

definition first_prices :: "variant list \<Rightarrow> price list option" where
  "first_prices vs =
     (case find (\<lambda>v. prices v \<noteq> None) vs of
        None \<Rightarrow> None
      | Some v \<Rightarrow> prices v)"

text \<open>A variant with no property set, and products of the current projection.\<close>

definition plain_variant :: variant where
  "plain_variant =
     \<lparr>sku = None, key = None, attributes = None, prices = None, scopedPrice = None,
      isMatchingVariant = False\<rparr>"

definition product_of :: "variant \<Rightarrow> variant list \<Rightarrow> product" where
  "product_of v vs =
     \<lparr>masterData = \<lparr>current = Some \<lparr>masterVariant = v, variants = vs\<rparr>, staged = None\<rparr>\<rparr>"

definition colour :: "string \<Rightarrow> variant" where
  "colour c = plain_variant\<lparr>attributes := Some [\<lparr>attr_name = ''color'', attr_value = JStr c\<rparr>]\<rparr>"

definition priced :: "int \<Rightarrow> variant" where
  "priced n = plain_variant\<lparr>prices := Some [\<lparr>price_value = \<lparr>centAmount = n\<rparr>\<rparr>]\<rparr>"

definition with_sku :: "string \<Rightarrow> variant" where
  "with_sku s = plain_variant\<lparr>sku := Some s\<rparr>"

definition scoped :: "int \<Rightarrow> variant" where
  "scoped n = plain_variant\<lparr>scopedPrice := Some \<lparr>scoped_value = \<lparr>centAmount = n\<rparr>\<rparr>\<rparr>"

section \<open>Auxiliary facts\<close>

lemma returnedE: "returned r \<Longrightarrow> \<exists>x. r = Some (Inr x)"
  by (auto simp: returned_def split: option.splits sum.splits)

lemma split_on_first: "split_on c s \<noteq> [] \<and> hd (split_on c s) = takeWhile (\<lambda>x. x \<noteq> c) s"
  by (induction s) (auto split: list.splits)

lemma startsWithE: "startsWith s pre \<Longrightarrow> \<exists>r. s = pre @ r"
  unfolding startsWith_def by (metis append_take_drop_id)

lemma takeWhile_run:
  "list_all P run \<Longrightarrow> (case rest of [] \<Rightarrow> True | c # _ \<Rightarrow> \<not> P c) \<Longrightarrow>
     takeWhile P (run @ rest) = run"
  by (induction run) (auto split: list.splits)

text \<open>The source of a filter is the text before its first colon.\<close>

lemma filter_source: "nth_opt (split_limit c 2 s) 0 = Some (takeWhile (\<lambda>x. x \<noteq> c) s)"
proof -
  obtain x xs where "split_on c s = x # xs"
    using split_on_first[of c s] by (cases "split_on c s") auto
  then show ?thesis
    using split_on_first[of c s] by (simp add: split_limit_def numeral_2_eq_2)
qed

subsection \<open>The parser returns within its bound\<close>

lemma take_prefix: "take n s = m \<Longrightarrow> \<exists>r. s = m @ r"
  by (metis append_take_drop_id)

lemma first_match_prefix:
  assumes "first_match getLexer s = Some (k, skip, m, g)"
  shows "m \<noteq> [] \<and> (\<exists>r. s = m @ r)"
proof -
  have kw: "m \<noteq> [] \<and> (\<exists>r. s = m @ r)" if "re_keyword w s = Some (m, g)" "w \<noteq> []" for w
    using that take_prefix[of "length w" s] by (auto simp: re_keyword_def Let_def split: if_splits)
  have tw: "takeWhile P s \<noteq> [] \<Longrightarrow> \<exists>r. s = takeWhile P s @ r" for P
    by (metis takeWhile_dropWhile_id)
  have fl: "m \<noteq> [] \<and> (\<exists>r. s = m @ r)" if "re_float s = Some (m, g)"
  proof -
    from that obtain c r where d: "dropWhile is_digit s = c # r" "c = CHR ''.''"
      "takeWhile is_digit s \<noteq> []" "m = takeWhile is_digit s @ c # takeWhile is_digit r"
      by (auto simp: re_float_def Let_def split: if_splits list.splits)
    have s1: "takeWhile is_digit s @ c # r = s"
      using d(1) takeWhile_dropWhile_id[of is_digit s] by simp
    have "m @ dropWhile is_digit r =
        takeWhile is_digit s @ c # (takeWhile is_digit r @ dropWhile is_digit r)"
      by (simp add: d(4))
    also have "\<dots> = takeWhile is_digit s @ c # r"
      by (simp only: takeWhile_dropWhile_id)
    finally have "s = m @ dropWhile is_digit r"
      using s1 by simp
    moreover have "m \<noteq> []"
      using d(4) by simp
    ultimately show ?thesis by blast
  qed
  have sb: "string_body q r = Some b \<Longrightarrow> \<exists>r'. r = b @ q # r'" for q r b
    by (induction q r arbitrary: b rule: string_body.induct) (auto split: if_splits)
  have st: "m \<noteq> [] \<and> (\<exists>r. s = m @ r)" if "re_string q s = Some (m, g)" for q
    using that sb by (fastforce simp: re_string_def split: list.splits if_splits option.splits)
  have tx: "m \<noteq> [] \<and> (\<exists>r. s = m @ r)" if "re_text w s = Some (m, g)" "w \<noteq> []" for w
    using that take_prefix[of "length w" s] by (auto simp: re_text_def startsWith_def split: if_splits)
  have id: "m \<noteq> [] \<and> (\<exists>r. s = m @ r)" if "re_identifier s = Some (m, g)"
    using that tw by (auto simp: re_identifier_def Let_def split: if_splits)
  have it: "m \<noteq> [] \<and> (\<exists>r. s = m @ r)" if "re_int s = Some (m, g)"
    using that tw by (auto simp: re_int_def Let_def split: if_splits)
  have ws: "m \<noteq> [] \<and> (\<exists>r. s = m @ r)" if "re_ws s = Some (m, g)"
    using that tw by (auto simp: re_ws_def Let_def split: if_splits)
  show ?thesis
    using assms kw fl st tx id it ws
    by (simp add: getLexer_def split: option.splits prod.splits)
qed

lemma peek_shrinks:
  "peek s = Inr (t, s1) \<Longrightarrow>
     (ttype t = None \<longrightarrow> s1 = []) \<and> (ttype t \<noteq> None \<longrightarrow> length s1 < length s)"
proof (induction s rule: peek.induct)
  case (1 s)
  show ?case
  proof (cases "s = []")
    case True
    then show ?thesis using 1(2) by (auto simp: peek.simps EOF_def)
  next
    case False
    then obtain k skip m g where fm: "first_match getLexer s = Some (k, skip, m, g)"
      using 1(2) by (subst (asm) peek.simps) (auto split: option.splits)
    from first_match_prefix[OF fm] obtain r where m: "m \<noteq> []" "s = m @ r" by blast
    then have dr: "drop (length m) s = r" by simp
    show ?thesis
    proof (cases skip)
      case True
      then have "peek r = Inr (t, s1)"
        using 1(2) False fm dr by (subst (asm) peek.simps) simp
      then have "(ttype t = None \<longrightarrow> s1 = []) \<and> (ttype t \<noteq> None \<longrightarrow> length s1 < length r)"
        using 1(1)[OF False fm refl refl refl True] dr by simp
      then show ?thesis using m by auto
    next
      case nskip: False
      then have "t = \<lparr>ttype = Some k, tmatch = m, tgroup = g\<rparr>" "s1 = r"
        using 1(2) False fm dr by (subst (asm) peek.simps, simp)+
      then show ?thesis using m by auto
    qed
  qed
qed

lemma nud_shrinks:
  assumes "\<And>r s. length s < n \<Longrightarrow> parser r s \<noteq> None \<and>
       (\<forall>e s'. parser r s = Some (Inr (e, s')) \<longrightarrow> length s' \<le> length s)"
    and "length s < n"
  shows "nud parser t s \<noteq> None \<and> (\<forall>e s'. nud parser t s = Some (Inr (e, s')) \<longrightarrow> length s' \<le> length s)"
proof (cases "ttype t = Some RANGE")
  case False
  then show ?thesis
    by (auto simp: nud_def split: option.splits kind.splits)
next
  case True
  show ?thesis
  proof (cases "peek s")
    case (Inl e)
    then show ?thesis using True by (simp add: nud_def)
  next
    case (Inr ts)
    obtain t1 s1 where ts: "ts = (t1, s1)" by (cases ts)
    have l: "length s1 \<le> length s"
      using peek_shrinks[of s t1 s1] Inr ts by (cases "ttype t1") auto
    then have "length s1 < n" using assms(2) by simp
    then have p: "parser (Fin 0) s1 \<noteq> None"
      "\<And>e s'. parser (Fin 0) s1 = Some (Inr (e, s')) \<Longrightarrow> length s' \<le> length s1"
      using assms(1) by auto
    show ?thesis
      using True Inr ts p l
      by (auto simp: nud_def split: option.splits sum.splits prod.splits)
  qed
qed

lemma led_shrinks:
  assumes "\<And>r s. length s < n \<Longrightarrow> parser r s \<noteq> None \<and>
       (\<forall>e s'. parser r s = Some (Inr (e, s')) \<longrightarrow> length s' \<le> length s)"
    and "length s < n"
  shows "led parser t left s \<noteq> None \<and>
    (\<forall>e s'. led parser t left s = Some (Inr (e, s')) \<longrightarrow> length s' \<le> length s)"
proof -
  have p: "parser r s \<noteq> None"
      "\<And>e s'. parser r s = Some (Inr (e, s')) \<Longrightarrow> length s' \<le> length s" for r
    using assms by auto
  show ?thesis
    using p[of "bp_pred (bp t)"]
    by (auto simp: led_def split: option.splits kind.splits sum.splits prod.splits)
qed

lemma parse_shrinks:
  "(\<forall>r s. length s < n \<longrightarrow> parse n r s \<noteq> None \<and>
      (\<forall>e s'. parse n r s = Some (Inr (e, s')) \<longrightarrow> length s' \<le> length s)) \<and>
   (\<forall>r left s. length s < n \<longrightarrow> parse_loop n r left s \<noteq> None \<and>
      (\<forall>e s'. parse_loop n r left s = Some (Inr (e, s')) \<longrightarrow> length s' \<le> length s))"
proof (induction n)
  case 0
  then show ?case by simp
next
  case (Suc n)
  then have sh: "length s < n \<Longrightarrow> parse n r s \<noteq> None \<and>
       (\<forall>e s'. parse n r s = Some (Inr (e, s')) \<longrightarrow> length s' \<le> length s)" for r s
    by blast
  have loop: "parse_loop n r left s \<noteq> None \<and>
      (\<forall>e s'. parse_loop n r left s = Some (Inr (e, s')) \<longrightarrow> length s' \<le> length s)"
    if "length s < n" for r left s
    using Suc that by blast
  have A: "parse (Suc n) r s \<noteq> None \<and>
      (\<forall>e s'. parse (Suc n) r s = Some (Inr (e, s')) \<longrightarrow> length s' \<le> length s)"
    if len: "length s < Suc n" for r s
  proof (cases "peek s")
    case (Inl e)
    then show ?thesis by simp
  next
    case (Inr ts)
    obtain t s1 where ts: "ts = (t, s1)" by (cases ts)
    show ?thesis
    proof (cases "ttype t")
      case None
      then show ?thesis using Inr ts by (simp add: nud_def)
    next
      case (Some k)
      then have l1: "length s1 < length s"
        using peek_shrinks[of s t s1] Inr ts by simp
      then have l1n: "length s1 < n" using len by simp
      note N = nud_shrinks[of n "parse n", OF sh l1n, where t = t]
      show ?thesis
      proof (cases "nud (parse n) t s1")
        case None
        then show ?thesis using N by simp
      next
        case (Some res)
        show ?thesis
        proof (cases res)
          case (Inl e)
          then show ?thesis using Inr ts Some by simp
        next
          case (Inr es)
          obtain e s2 where es: "es = (e, s2)" by (cases es)
          have l2: "length s2 \<le> length s1" using N Some Inr es by simp
          then have "length s2 < n" using l1n by simp
          from loop[OF this, of r e] show ?thesis
            using \<open>peek s = Inr ts\<close> ts Some Inr es l1 l2 by auto
        qed
      qed
    qed
  qed
  have B: "parse_loop (Suc n) r left s \<noteq> None \<and>
      (\<forall>e s'. parse_loop (Suc n) r left s = Some (Inr (e, s')) \<longrightarrow> length s' \<le> length s)"
    if len: "length s < Suc n" for r left s
  proof (cases "peek s")
    case (Inl e)
    then show ?thesis by simp
  next
    case (Inr ts)
    obtain t s1 where ts: "ts = (t, s1)" by (cases ts)
    show ?thesis
    proof (cases "bp_less r (bp t)")
      case False
      then show ?thesis using Inr ts by simp
    next
      case True
      then have "ttype t \<noteq> None"
        by (cases r; cases "ttype t") (auto simp: bp_def)
      then have l1: "length s1 < length s"
        using peek_shrinks[of s t s1] Inr ts by simp
      then have l1n: "length s1 < n" using len by simp
      note N = led_shrinks[of n "parse n", OF sh l1n, where t = t and left = left]
      show ?thesis
      proof (cases "led (parse n) t left s1")
        case None
        then show ?thesis using N by simp
      next
        case (Some res)
        show ?thesis
        proof (cases res)
          case (Inl e)
          then show ?thesis using Inr ts Some True by simp
        next
          case (Inr es)
          obtain e s2 where es: "es = (e, s2)" by (cases es)
          have l2: "length s2 \<le> length s1" using N Some Inr es by simp
          then have "length s2 < n" using l1n by simp
          from loop[OF this, of r e] show ?thesis
            using \<open>peek s = Inr ts\<close> ts Some Inr es l1 l2 True by auto
        qed
      qed
    qed
  qed
  show ?case using A B by blast
qed

lemma generateMatchFunc_total: "generateMatchFunc fltr \<noteq> None"
  using parse_shrinks[of "Suc (length fltr)"]
  by (auto simp: generateMatchFunc_def Let_def split: option.splits sum.splits prod.splits expr.splits)

subsection \<open>A larger bound does not change a result\<close>

lemma nud_mono:
  assumes "\<And>r s x. p r s = Some x \<Longrightarrow> q r s = Some x" "nud p t s = Some y"
  shows "nud q t s = Some y"
proof (cases "ttype t = Some RANGE")
  case False
  then show ?thesis using assms(2)
    by (auto simp: nud_def split: option.splits kind.splits)
next
  case True
  then show ?thesis using assms(2) assms(1)
    by (auto simp: nud_def split: option.splits sum.splits prod.splits)
qed

lemma led_mono:
  assumes "\<And>r s x. p r s = Some x \<Longrightarrow> q r s = Some x" "led p t left s = Some y"
  shows "led q t left s = Some y"
proof -
  have "p (bp_pred (bp t)) s = None \<or> q (bp_pred (bp t)) s = p (bp_pred (bp t)) s"
    using assms(1) by (cases "p (bp_pred (bp t)) s") auto
  then show ?thesis using assms(2)
    by (auto simp: led_def split: option.splits kind.splits)
qed

lemma parse_fuel_step:
  "(\<forall>r s x. parse n r s = Some x \<longrightarrow> parse (Suc n) r s = Some x) \<and>
   (\<forall>r left s x. parse_loop n r left s = Some x \<longrightarrow> parse_loop (Suc n) r left s = Some x)"
proof (induction n)
  case 0
  then show ?case by simp
next
  case (Suc n)
  have P: "parse n r s = Some x \<Longrightarrow> parse (Suc n) r s = Some x" for r s x
    using Suc by blast
  have L: "parse_loop n r left s = Some x \<Longrightarrow> parse_loop (Suc n) r left s = Some x" for r left s x
    using Suc by blast
  have A: "parse (Suc (Suc n)) r s = Some x" if a: "parse (Suc n) r s = Some x" for r s x
  proof (cases "peek s")
    case (Inl e)
    then show ?thesis using a by simp
  next
    case (Inr ts)
    obtain t s1 where ts: "ts = (t, s1)" by (cases ts)
    show ?thesis
    proof (cases "nud (parse n) t s1")
      case None
      then show ?thesis using a Inr ts by simp
    next
      case (Some y)
      then have "nud (parse (Suc n)) t s1 = Some y"
        using nud_mono[of "parse n" "parse (Suc n)"] P by blast
      then show ?thesis using a Inr ts Some L
        by (cases y) (auto split: prod.splits)
    qed
  qed
  have B: "parse_loop (Suc (Suc n)) r left s = Some x"
    if a: "parse_loop (Suc n) r left s = Some x" for r left s x
  proof (cases "peek s")
    case (Inl e)
    then show ?thesis using a by simp
  next
    case (Inr ts)
    obtain t s1 where ts: "ts = (t, s1)" by (cases ts)
    show ?thesis
    proof (cases "bp_less r (bp t)")
      case False
      then show ?thesis using a Inr ts by simp
    next
      case True
      show ?thesis
      proof (cases "led (parse n) t left s1")
        case None
        then show ?thesis using a Inr ts True by simp
      next
        case (Some y)
        then have "led (parse (Suc n)) t left s1 = Some y"
          using led_mono[of "parse n" "parse (Suc n)"] P by blast
        then show ?thesis using a Inr ts Some L True
          by (cases y) (auto split: prod.splits)
      qed
    qed
  qed
  show ?case using A B by blast
qed

lemma parse_mono: "parse n r s = Some x \<Longrightarrow> n \<le> m \<Longrightarrow> parse m r s = Some x"
proof (induction m)
  case 0
  then show ?case by simp
next
  case (Suc m)
  show ?case
  proof (cases "n = Suc m")
    case True
    then show ?thesis using Suc by simp
  next
    case False
    then have "parse m r s = Some x" using Suc by simp
    then show ?thesis using parse_fuel_step[of m] by blast
  qed
qed

subsection \<open>The path resolver\<close>

lemma resolveValue_loop_drop:
  "resolveValue_loop parts i val = index_all val (drop i parts)"
proof (induction parts i val rule: resolveValue_loop.induct)
  case (1 parts i val)
  show ?case
  proof (cases "i < length parts")
    case True
    then have d: "drop i parts = parts ! i # drop (Suc i) parts"
      by (simp add: Cons_nth_drop_Suc)
    show ?thesis
      using True 1 by (subst resolveValue_loop.simps) (simp add: d split: sum.splits)
  next
    case False
    then show ?thesis by (subst resolveValue_loop.simps) simp
  qed
qed

subsection \<open>Tokens at the start of an input\<close>

lemma peek_identifier_run:
  assumes "run \<noteq> []" "list_all ident_char run"
    and "case rest of [] \<Rightarrow> True | c # _ \<Rightarrow> \<not> ident_char c"
    and "re_keyword ''missing'' (run @ rest) = None"
    and "re_keyword ''exists'' (run @ rest) = None"
    and "re_keyword ''range'' (run @ rest) = None"
    and "re_keyword ''to'' (run @ rest) = None"
  shows "peek (run @ rest) = Inr (\<lparr>ttype = Some IDENTIFIER, tmatch = run, tgroup = None\<rparr>, rest)"
proof -
  have "re_identifier (run @ rest) = Some (run, None)"
    using assms(1-3) by (simp add: re_identifier_def takeWhile_run)
  then have "first_match getLexer (run @ rest) = Some (IDENTIFIER, False, run, None)"
    using assms(4-7) by (simp add: getLexer_def)
  then show ?thesis
    using assms(1) by (subst peek.simps) simp
qed

lemma no_keyword:
  assumes "to_lower c \<notin> {CHR ''m'', CHR ''e'', CHR ''r'', CHR ''t''}"
  shows "re_keyword ''missing'' (c # s) = None" "re_keyword ''exists'' (c # s) = None"
    "re_keyword ''range'' (c # s) = None" "re_keyword ''to'' (c # s) = None"
  using assms by (simp_all add: re_keyword_def)

lemma digit_not_keyword:
  "is_digit c \<Longrightarrow> to_lower c \<notin> {CHR ''m'', CHR ''e'', CHR ''r'', CHR ''t''}"
  by (auto simp: is_digit_def to_lower_def is_upper_def code_def)

lemma digit_not_ident: "is_digit c \<Longrightarrow> \<not> ident_char c"
  by (auto simp: ident_char_def is_digit_def is_lower_def is_upper_def code_def)

lemma peek_EOF: "peek [] = Inr (EOF, [])"
  by (simp add: peek.simps)

lemma peek_integer:
  assumes "ds \<noteq> []" "list_all is_digit ds"
    and "case rest of [] \<Rightarrow> True | c # _ \<Rightarrow> \<not> is_digit c \<and> c \<noteq> CHR ''.''"
  shows "peek (ds @ rest) = Inr (\<lparr>ttype = Some INTEGER, tmatch = ds, tgroup = None\<rparr>, rest)"
proof -
  obtain d ds' where ds: "ds = d # ds'" "is_digit d"
    using assms(1,2) by (cases ds) auto
  have tw: "takeWhile is_digit (ds @ rest) = ds"
    using assms(2,3) by (intro takeWhile_run) (auto split: list.splits)
  then have dw: "dropWhile is_digit (ds @ rest) = rest"
    using takeWhile_dropWhile_id[of is_digit "ds @ rest"] by simp
  have kw: "re_keyword ''missing'' (ds @ rest) = None" "re_keyword ''exists'' (ds @ rest) = None"
    "re_keyword ''range'' (ds @ rest) = None" "re_keyword ''to'' (ds @ rest) = None"
    using no_keyword[OF digit_not_keyword[OF ds(2)], of "ds' @ rest"] ds(1) by simp_all
  have id: "re_identifier (ds @ rest) = None"
    using ds digit_not_ident by (simp add: re_identifier_def)
  have fl: "re_float (ds @ rest) = None"
    using assms(3) tw dw ds(1) by (auto simp: re_float_def Let_def split: list.splits)
  have it: "re_int (ds @ rest) = Some (ds, None)"
    using tw ds(1) by (simp add: re_int_def)
  have "first_match getLexer (ds @ rest) = Some (INTEGER, False, ds, None)"
    using kw id fl it by (simp add: getLexer_def)
  then show ?thesis
    using ds(1) by (subst peek.simps) simp
qed

lemma string_body_append:
  "string_body q (b @ [q]) = Some b \<Longrightarrow> string_body q (b @ q # rest) = Some b"
proof (induction q b rule: string_body.induct)
  case (1 q)
  then show ?case by (cases rest) simp_all
next
  case (2 q c)
  then show ?case by (cases rest) (auto split: if_splits)
next
  case (3 q c d r)
  then show ?case by (auto split: if_splits)
qed

lemma peek_punct:
  "peek (CHR '':'' # s) = Inr (\<lparr>ttype = Some COLON, tmatch = '':'', tgroup = None\<rparr>, s)"
  "peek (CHR '','' # s) = Inr (\<lparr>ttype = Some COMMA, tmatch = '','', tgroup = None\<rparr>, s)"
  "peek (CHR ''('' # s) = Inr (\<lparr>ttype = Some LPAREN, tmatch = ''('', tgroup = None\<rparr>, s)"
  "peek (CHR '')'' # s) = Inr (\<lparr>ttype = Some RPAREN, tmatch = '')'', tgroup = None\<rparr>, s)"
  by (subst peek.simps,
      simp add: getLexer_def re_keyword_def re_identifier_def re_float_def re_int_def
        re_string_def re_text_def startsWith_def ident_char_def is_digit_def is_lower_def
        is_upper_def code_def to_lower_def)+

lemma re_keyword_colon:
  assumes "CHR '':'' \<notin> set kw"
  shows "re_keyword kw (P @ CHR '':'' # rest) = re_keyword kw (P @ '':'')"
proof (cases "length kw \<le> length P")
  case True
  then show ?thesis
    by (cases "drop (length kw) P") (simp_all add: re_keyword_def Let_def)
next
  case False
  have "map to_lower (take (length kw) (P @ CHR '':'' # r)) \<noteq> kw" for r
  proof
    assume a: "map to_lower (take (length kw) (P @ CHR '':'' # r)) = kw"
    have "take (length kw) (P @ CHR '':'' # r) = P @ CHR '':'' # take (length kw - length P - 1) r"
      using False by (simp add: take_Cons')
    then have "kw = map to_lower P @ to_lower (CHR '':'') # map to_lower (take (length kw - length P - 1) r)"
      using a by simp
    then have "to_lower (CHR '':'') \<in> set kw" by (metis in_set_conv_decomp)
    then show False using assms by (simp add: to_lower_def is_upper_def code_def)
  qed
  then show ?thesis by (simp add: re_keyword_def Let_def)
qed

lemma re_keyword_colon_None:
  assumes "CHR '':'' \<notin> set kw" "re_keyword kw (P @ '':'') = None"
  shows "re_keyword kw (P @ CHR '':'' # rest) = None"
  using re_keyword_colon[OF assms(1), of P rest] assms(2) by (simp only:)

lemma peek_identifier_colon:
  assumes "identifier_text P"
  shows "peek (P @ CHR '':'' # rest) =
     Inr (\<lparr>ttype = Some IDENTIFIER, tmatch = P, tgroup = None\<rparr>, CHR '':'' # rest)"
proof (rule peek_identifier_run)
  show "P \<noteq> []" "list_all ident_char P"
    using assms by (simp_all add: identifier_text_def)
  show "case CHR '':'' # rest of [] \<Rightarrow> True | c # _ \<Rightarrow> \<not> ident_char c"
    by (simp add: ident_char_def is_lower_def is_upper_def code_def)
  have nk: "re_keyword ''missing'' (P @ '':'') = None" "re_keyword ''exists'' (P @ '':'') = None"
    "re_keyword ''range'' (P @ '':'') = None" "re_keyword ''to'' (P @ '':'') = None"
    using assms unfolding identifier_text_def keyword_start_def by blast+
  show "re_keyword ''missing'' (P @ CHR '':'' # rest) = None"
    by (rule re_keyword_colon_None[OF _ nk(1)]) simp
  show "re_keyword ''exists'' (P @ CHR '':'' # rest) = None"
    by (rule re_keyword_colon_None[OF _ nk(2)]) simp
  show "re_keyword ''range'' (P @ CHR '':'' # rest) = None"
    by (rule re_keyword_colon_None[OF _ nk(3)]) simp
  show "re_keyword ''to'' (P @ CHR '':'' # rest) = None"
    by (rule re_keyword_colon_None[OF _ nk(4)]) simp
qed

lemma peek_string:
  assumes "q = CHR 0x22 \<or> q = CHR 0x27" "string_body q (b @ [q]) = Some b"
  shows "peek (q # b @ q # rest) =
    Inr (\<lparr>ttype = Some STRING, tmatch = q # b @ [q], tgroup = Some b\<rparr>, rest)"
proof -
  have nk: "to_lower q \<notin> {CHR ''m'', CHR ''e'', CHR ''r'', CHR ''t''}"
    using assms(1) by (auto simp: to_lower_def is_upper_def code_def)
  have nd: "\<not> is_digit q" "\<not> ident_char q"
    using assms(1) by (auto simp: is_digit_def ident_char_def is_lower_def is_upper_def code_def)
  have sb: "string_body q (b @ q # rest) = Some b"
    using assms(2) by (rule string_body_append)
  have "first_match getLexer (q # b @ q # rest) = Some (STRING, False, q # b @ [q], Some b)"
    using no_keyword[OF nk, of "b @ q # rest"] nd sb assms(1)
    by (auto simp: getLexer_def re_identifier_def re_float_def re_int_def re_string_def)
  then show ?thesis
    by (subst peek.simps) simp
qed

lemma peek_literal:
  assumes "wf_literal l"
    and "case rest of [] \<Rightarrow> True | c # _ \<Rightarrow> \<not> is_digit c \<and> c \<noteq> CHR ''.''"
  shows "\<exists>t. peek (literal_text l @ rest) = Inr (t, rest) \<and>
           nud parser t rest = Some (Inr (literal_value l, rest))"
proof (cases l)
  case (StrLit q b)
  then show ?thesis
    using assms(1) peek_string[of q b rest] by (auto simp: nud_def)
next
  case (IntLit ds)
  then show ?thesis
    using assms peek_integer[of ds rest] by (auto simp: nud_def)
qed

lemma peek_space:
  assumes "case s of [] \<Rightarrow> True | c # _ \<Rightarrow> \<not> is_space c"
  shows "peek (CHR '' '' # s) = peek s"
proof -
  have tw: "takeWhile is_space (CHR '' '' # s) = '' ''"
    using assms by (cases s) (simp_all add: is_space_def code_def)
  have "first_match getLexer (CHR '' '' # s) = Some (WS, True, '' '', None)"
    using tw
    by (simp add: getLexer_def re_keyword_def re_identifier_def re_float_def re_int_def
        re_string_def re_text_def re_ws_def startsWith_def ident_char_def is_digit_def
        is_lower_def is_upper_def code_def to_lower_def)
  then show ?thesis
    by (subst peek.simps) simp
qed

lemma peek_range:
  "peek (''range('' @ s) = Inr (\<lparr>ttype = Some RANGE, tmatch = ''range'', tgroup = None\<rparr>, ''('' @ s)"
  by (subst peek.simps)
     (simp add: getLexer_def re_keyword_def guard_char_def is_digit_def is_lower_def
        is_upper_def code_def to_lower_def)

lemma peek_to:
  "peek (''to '' @ s) = Inr (\<lparr>ttype = Some TO, tmatch = ''to'', tgroup = None\<rparr>, '' '' @ s)"
  by (subst peek.simps)
     (simp add: getLexer_def re_keyword_def guard_char_def is_digit_def is_lower_def
        is_upper_def code_def to_lower_def)

lemma digit_not_space: "is_digit c \<Longrightarrow> \<not> is_space c"
  by (auto simp: is_digit_def is_space_def)

subsection \<open>What generateMatchFunc compiles\<close>

lemma generateMatchFunc_parse:
  assumes "parse n (Fin 0) fltr = Some (Inr (EFn f, rest))" "n \<le> Suc (length fltr)"
  shows "generateMatchFunc fltr = Some (Inr f)"
  using parse_mono[OF assms] by (simp add: generateMatchFunc_def)

lemma literal_compiles:
  assumes "identifier_text P" and "wf_literal V"
  shows "generateMatchFunc (P @ '':'' @ literal_text V) =
    Some (Inr (\<lambda>obj. Some (strict_eq obj (literal_value V))))"
proof -
  let ?f = "P @ '':'' @ literal_text V"
  obtain t where t: "peek (literal_text V) = Inr (t, [])"
    "nud (parse (Suc 0)) t [] = Some (Inr (literal_value V, []))"
    using peek_literal[OF assms(2), of "[]" "parse (Suc 0)"] by auto
  have nl: "\<not> (\<exists>xs. literal_value V = EArr xs)" "\<not> (\<exists>f. literal_value V = EFn f)"
    by (cases V; simp)+
  have "parse (Suc (Suc (Suc (Suc 0)))) (Fin 0) ?f =
      Some (Inr (EFn (\<lambda>obj. Some (strict_eq obj (literal_value V))), []))"
    using t nl peek_identifier_colon[OF assms(1), of "literal_text V"]
    by (cases "literal_value V")
       (simp_all add: peek_punct peek_EOF led_def bp_def EOF_def
          nud_def[of _ "\<lparr>ttype = Some IDENTIFIER, tmatch = P, tgroup = None\<rparr>"])
  moreover have "Suc (Suc (Suc (Suc 0))) \<le> Suc (length ?f)"
  proof -
    have "Suc 0 \<le> length P"
      using assms(1) by (cases P) (simp_all add: identifier_text_def)
    moreover have "Suc 0 \<le> length (literal_text V)"
      using assms(2) by (cases V; cases "literal_text V") auto
    ultimately have "Suc (Suc 0) \<le> length P + length (literal_text V)" by linarith
    then show ?thesis by simp
  qed
  ultimately show ?thesis
    by (rule generateMatchFunc_parse)
qed

lemma literal_text_length: "wf_literal l \<Longrightarrow> Suc 0 \<le> length (literal_text l)"
  by (cases l; cases "literal_text l") auto

lemma comma_text_length:
  "ls \<noteq> [] \<Longrightarrow> list_all wf_literal ls \<Longrightarrow> 2 * length ls \<le> Suc (length (comma_text ls))"
proof (induction ls rule: comma_text.induct)
  case 1
  then show ?case by simp
next
  case (2 l)
  then show ?case using literal_text_length[of l] by simp
next
  case (3 l v va)
  then have "2 * length (v # va) \<le> Suc (length (comma_text (v # va)))" by simp
  moreover have "Suc 0 \<le> length (literal_text l)"
    using 3(3) literal_text_length[of l] by simp
  ultimately show ?case by simp
qed

lemma parse_comma_text:
  assumes "ls \<noteq> []" "list_all wf_literal ls" "r < 200"
  shows "parse (2 * length ls + k) (Fin r) (comma_text ls) = Some (Inr (comma_value ls, []))"
  using assms
proof (induction ls arbitrary: r k rule: comma_text.induct)
  case 1
  then show ?case by simp
next
  case (2 l)
  obtain t where t: "peek (literal_text l) = Inr (t, [])"
    "nud (parse (Suc k)) t [] = Some (Inr (literal_value l, []))"
    using peek_literal[of l "[]" "parse (Suc k)"] 2(2) by auto
  show ?case
    using t by (simp add: peek_EOF EOF_def bp_def)
next
  case (3 l l2 ls)
  let ?rest = "CHR '','' # comma_text (l2 # ls)"
  let ?m = "2 * length (l2 # ls) + k"
  obtain t where t: "peek (literal_text l @ ?rest) = Inr (t, ?rest)"
    "nud (parse (Suc ?m)) t ?rest = Some (Inr (literal_value l, ?rest))"
    using peek_literal[of l ?rest "parse (Suc ?m)"] 3(3)
    by (auto simp: is_digit_def code_def)
  have ih: "parse ?m (Fin 199) (comma_text (l2 # ls)) = Some (Inr (comma_value (l2 # ls), []))"
    using 3(1)[of 199 k] 3(3) by simp
  have cv: "(case comma_value (l2 # ls) of
               EArr xs \<Rightarrow> EArr (literal_value l # xs)
             | _ \<Rightarrow> EArr [literal_value l, comma_value (l2 # ls)]) = comma_value (l # l2 # ls)"
    by (cases ls; cases l2) simp_all
  have led: "led (parse ?m) \<lparr>ttype = Some COMMA, tmatch = '','', tgroup = None\<rparr> (literal_value l)
       (comma_text (l2 # ls)) = Some (Inr (comma_value (l # l2 # ls), []))"
    using ih cv by (simp add: led_def bp_def)
  obtain m' where m': "?m = Suc m'" by simp
  have loop: "parse_loop ?m (Fin r) (comma_value (l # l2 # ls)) [] = Some (Inr (comma_value (l # l2 # ls), []))"
    unfolding m' by (simp add: peek_EOF EOF_def bp_def)
  have "parse (Suc (Suc ?m)) (Fin r) (literal_text l @ ?rest) = Some (Inr (comma_value (l # l2 # ls), []))"
    using t led loop 3(4) by (simp add: peek_punct bp_def)
  then show ?case by simp
qed

lemma identifier_text_prefix:
  assumes "list_all ident_char name"
  shows "identifier_text (''variants.attributes.'' @ name)"
  using assms
  by (simp add: identifier_text_def keyword_start_def re_keyword_def ident_char_def is_lower_def
      is_upper_def code_def to_lower_def)

lemma list_compiles:
  assumes "identifier_text P" and "ls \<noteq> []" and "list_all wf_literal ls"
  shows "\<exists>f. generateMatchFunc (P @ '':'' @ comma_text ls) = Some (Inr f) \<and>
           (\<forall>obj. f obj = Some (array_includes (map literal_value ls) obj))"
proof -
  let ?f = "P @ '':'' @ comma_text ls"
  let ?n = "2 * length ls"
  let ?g = "case comma_value ls of
              EArr xs \<Rightarrow> (\<lambda>obj. Some (array_includes xs obj))
            | EFn f \<Rightarrow> (\<lambda>obj. f obj)
            | _ \<Rightarrow> (\<lambda>obj. Some (strict_eq obj (comma_value ls)))"
  have inner: "parse ?n (Fin 99) (comma_text ls) = Some (Inr (comma_value ls, []))"
    using parse_comma_text[OF assms(2,3), of 99 0] by simp
  obtain n' where n': "?n = Suc n'"
    using assms(2) by (cases ls) auto
  have loop: "parse_loop ?n (Fin 0) e [] = Some (Inr (e, []))" for e
    unfolding n' by (simp add: peek_EOF EOF_def bp_def)
  have "parse (Suc (Suc ?n)) (Fin 0) ?f = Some (Inr (EFn ?g, []))"
    using inner loop peek_identifier_colon[OF assms(1), of "comma_text ls"]
    by (cases "comma_value ls")
       (simp_all add: peek_punct led_def bp_def
          nud_def[of _ "\<lparr>ttype = Some IDENTIFIER, tmatch = P, tgroup = None\<rparr>"])
  moreover have "Suc (Suc ?n) \<le> Suc (length ?f)"
  proof -
    have "Suc 0 \<le> length P"
      using assms(1) by (cases P) (simp_all add: identifier_text_def)
    then show ?thesis
      using comma_text_length[OF assms(2,3)] by simp
  qed
  ultimately have g: "generateMatchFunc ?f = Some (Inr ?g)"
    by (rule generateMatchFunc_parse)
  have "?g obj = Some (array_includes (map literal_value ls) obj)" for obj
  proof (cases ls)
    case Nil
    then show ?thesis using assms(2) by simp
  next
    case (Cons l ls')
    show ?thesis
    proof (cases ls')
      case Nil
      then show ?thesis using Cons by (cases l) (simp_all add: array_includes_def)
    next
      case (Cons l2 ls'')
      then show ?thesis using \<open>ls = l # ls'\<close> by simp
    qed
  qed
  then show ?thesis using g by blast
qed

lemma range_compiles:
  assumes "identifier_text P" and "wf_literal (IntLit A)" and "wf_literal (IntLit B)"
  shows "generateMatchFunc (P @ '':range('' @ A @ '' to '' @ B @ '')'') =
    Some (Inr (\<lambda>obj. range_match (ENum (parseInt A)) (ENum (parseInt B)) obj))"
proof -
  let ?f = "P @ '':range('' @ A @ '' to '' @ B @ '')''"
  have A: "peek (A @ '' to '' @ B @ '')'') =
      Inr (\<lparr>ttype = Some INTEGER, tmatch = A, tgroup = None\<rparr>, '' to '' @ B @ '')'')"
    using assms(2) peek_integer[of A "'' to '' @ B @ '')''"]
    by (simp add: is_digit_def code_def)
  have B: "peek (B @ '')'') = Inr (\<lparr>ttype = Some INTEGER, tmatch = B, tgroup = None\<rparr>, '')'')"
    using assms(3) peek_integer[of B "'')''"]
    by (simp add: is_digit_def code_def)
  obtain b bs where b: "B = b # bs" "is_digit b"
    using assms(3) by (cases B) auto
  have sB: "peek ('' '' @ B @ '')'') = peek (B @ '')'')"
    using peek_space[of "B @ '')''"] b digit_not_space by simp
  have sT: "peek ('' to '' @ B @ '')'') =
      Inr (\<lparr>ttype = Some TO, tmatch = ''to'', tgroup = None\<rparr>, '' '' @ B @ '')'')"
    using peek_space[of "''to '' @ B @ '')''"] peek_to[of "B @ '')''"]
    by (simp add: is_space_def code_def)
  have "parse (Suc (Suc (Suc (Suc (Suc (Suc (Suc 0))))))) (Fin 0) ?f =
      Some (Inr (EFn (\<lambda>obj. range_match (ENum (parseInt A)) (ENum (parseInt B)) obj), '')''))"
    using A B sB sT peek_identifier_colon[OF assms(1), of "''range('' @ A @ '' to '' @ B @ '')''"]
      peek_range[of "A @ '' to '' @ B @ '')''"]
    by (simp add: peek_punct nud_def led_def bp_def destructure2_def)
  moreover have "Suc (Suc (Suc (Suc (Suc (Suc (Suc 0)))))) \<le> Suc (length ?f)"
    by simp
  ultimately show ?thesis
    by (rule generateMatchFunc_parse)
qed

subsection \<open>Applying a filter\<close>

lemma getVariants_store: "getVariants (storeVariants p stg (v # vs)) stg = Inr (v # vs)"
  by (simp add: getVariants_def storeVariants_def)

lemma outcome_finish: "outcome (finish p stg r) = map_sum id fst r"
  by (auto simp: outcome_def finish_def split: sum.splits)

lemma outcome_filterVariant:
  "outcome (filterVariant source stg f (storeVariants p stg (v # vs)) m) =
     map_sum id fst
       (filterVariant_loop f (nth_opt (split_limit (CHR ''.'') 2 source) 1) m (v # vs))"
  by (simp add: filterVariant_def getVariants_store outcome_finish)

lemma outcome_filterAttribute:
  "outcome (filterAttribute source stg f (storeVariants p stg (v # vs)) m) =
     map_sum id fst
       (filterAttribute_loop f (nth_opt (split_limit (CHR ''.'') 4 source) 2)
          (nth_opt (split_limit (CHR ''.'') 4 source) 3) m (v # vs))"
  by (simp add: filterAttribute_def getVariants_store outcome_finish Let_def)

lemma outcome_filterPrice:
  "outcome (filterPrice source stg f (storeVariants p stg (v # vs)) m) =
     map_sum id fst (filterPrice_loop f m (v # vs))"
  by (simp add: filterPrice_def getVariants_store outcome_finish)

lemma outcome_filterScopedPrice:
  "outcome (filterScopedPrice ''variants.scopedPrice.value.centAmount'' stg f
      (storeVariants p stg (v # vs)) m) =
     map_sum id fst (filterScopedPrice_loop f m (v # vs))"
  by (simp add: filterScopedPrice_def getVariants_store outcome_finish)

lemma map_sum_continue:
  "map_sum id fst (continue v r) = map_sum id fst r"
  by (auto simp: continue_def split: sum.splits)

lemma variant_family_source:
  assumes "startsWith source ''variants.sku'' \<or> startsWith source ''variants.key''"
  shows "\<not> startsWith source ''variants.attributes''" "\<not> startsWith source ''variants.price''"
    "\<not> startsWith source ''variants.scopedPrice''"
proof -
  obtain r where "source = ''variants.sku'' @ r \<or> source = ''variants.key'' @ r"
    using assms startsWithE by blast
  then show "\<not> startsWith source ''variants.attributes''" "\<not> startsWith source ''variants.price''"
    "\<not> startsWith source ''variants.scopedPrice''"
    by (auto simp: startsWith_def)
qed

lemma price_family_source:
  assumes "startsWith source ''variants.price''"
  shows "\<not> startsWith source ''variants.attributes''"
proof -
  obtain r where "source = ''variants.price'' @ r"
    using assms startsWithE by blast
  then show ?thesis
    by (simp add: startsWith_def)
qed

subsection \<open>Filters on a total match function\<close>

lemma split_on_no_sep: "c \<notin> set s \<Longrightarrow> split_on c s = [s]"
  by (induction s) auto

lemma takeWhile_no_sep: "c \<notin> set s \<Longrightarrow> takeWhile (\<lambda>x. x \<noteq> c) (s @ c # r) = s"
  by (induction s) auto

lemma ident_char_colon: "list_all ident_char s \<Longrightarrow> CHR '':'' \<notin> set s"
proof -
  have "\<not> ident_char (CHR '':'')"
    by (simp add: ident_char_def is_lower_def is_upper_def code_def)
  then show "list_all ident_char s \<Longrightarrow> CHR '':'' \<notin> set s"
    by (auto simp: list_all_iff)
qed

lemma find_append2:
  "find P (xs @ ys) = (case find P xs of None \<Rightarrow> find P ys | Some x \<Rightarrow> Some x)"
  by (induction xs) auto

lemma attribute_loop_find:
  "attribute_loop f (Some name) None attrs =
     (case find (\<lambda>a. attr_name a = name) attrs of
        None \<Rightarrow> None
      | Some a \<Rightarrow> Some (Inr (f (attr_value a))))"
  by (induction attrs) (auto simp: resolveValue_def)

lemma fst_decide: "map_sum id fst (case decide (Some b) m v of Inl e \<Rightarrow> Inl e | Inr (c, v') \<Rightarrow> Inr (c, v' # vs)) = Inr b"
  by (cases b) (simp_all add: decide_def)

lemma filterAttribute_loop_total:
  assumes "\<And>obj. f obj = Some (g obj)"
  shows "map_sum id fst (filterAttribute_loop f (Some name) None m vs) =
     Inr (case first_attribute name vs of None \<Rightarrow> False | Some a \<Rightarrow> g (attr_value a))"
proof (induction vs)
  case Nil
  then show ?case by (simp add: first_attribute_def)
next
  case (Cons v vs)
  have ih: "map_sum id fst (filterAttribute_loop f (Some name) None m vs) =
     Inr (case first_attribute name vs of None \<Rightarrow> False | Some a \<Rightarrow> g (attr_value a))"
    by (rule Cons)
  show ?case
  proof (cases "attributes v")
    case None
    then have "first_attribute name (v # vs) = first_attribute name vs"
      by (simp add: first_attribute_def)
    moreover have "map_sum id fst (filterAttribute_loop f (Some name) None m (v # vs)) =
        map_sum id fst (filterAttribute_loop f (Some name) None m vs)"
      using None by (simp only: filterAttribute_loop.simps option.case map_sum_continue)
    ultimately show ?thesis using ih by (simp only:)
  next
    case (Some attrs)
    show ?thesis
    proof (cases "find (\<lambda>a. attr_name a = name) attrs")
      case None
      then have "first_attribute name (v # vs) = first_attribute name vs"
        using Some by (simp add: first_attribute_def find_append2)
      moreover have "map_sum id fst (filterAttribute_loop f (Some name) None m (v # vs)) =
          map_sum id fst (filterAttribute_loop f (Some name) None m vs)"
        using None Some
        by (simp only: filterAttribute_loop.simps option.case map_sum_continue attribute_loop_find)
      ultimately show ?thesis using ih by (simp only:)
    next
      case (Some a)
      then have "first_attribute name (v # vs) = Some a"
        using \<open>attributes v = Some attrs\<close> by (simp add: first_attribute_def find_append2)
      moreover have "map_sum id fst (filterAttribute_loop f (Some name) None m (v # vs)) =
          Inr (g (attr_value a))"
        using Some \<open>attributes v = Some attrs\<close> assms
        by (simp only: filterAttribute_loop.simps option.case sum.case attribute_loop_find fst_decide)
      ultimately show ?thesis by (simp only: option.case)
    qed
  qed
qed

lemma filterPrice_loop_total:
  assumes "\<And>n. f (JNum n) = Some (g n)"
  shows "map_sum id fst (filterPrice_loop f m vs) =
     (case first_prices vs of
        None \<Rightarrow> Inr False
      | Some [] \<Rightarrow> Inl TypeError
      | Some (pr # others) \<Rightarrow> Inr (g (centAmount (price_value pr))))"
proof (induction vs)
  case Nil
  then show ?case by (simp add: first_prices_def)
next
  case (Cons v vs)
  have ih: "map_sum id fst (filterPrice_loop f m vs) =
     (case first_prices vs of
        None \<Rightarrow> Inr False
      | Some [] \<Rightarrow> Inl TypeError
      | Some (pr # others) \<Rightarrow> Inr (g (centAmount (price_value pr))))"
    by (rule Cons)
  show ?case
  proof (cases "prices v")
    case None
    then have "first_prices (v # vs) = first_prices vs"
      by (simp add: first_prices_def)
    moreover have "map_sum id fst (filterPrice_loop f m (v # vs)) =
        map_sum id fst (filterPrice_loop f m vs)"
      using None by (simp only: filterPrice_loop.simps option.case map_sum_continue)
    ultimately show ?thesis using ih by (simp only:)
  next
    case (Some ps)
    then have fp: "first_prices (v # vs) = Some ps"
      by (simp add: first_prices_def)
    show ?thesis
    proof (cases ps)
      case Nil
      then show ?thesis using Some fp by simp
    next
      case (Cons pr others)
      have "map_sum id fst (filterPrice_loop f m (v # vs)) = Inr (g (centAmount (price_value pr)))"
        using Some Cons assms
        by (simp only: filterPrice_loop.simps option.case list.case fst_decide)
      then show ?thesis using fp Cons by (simp only: option.case list.case)
    qed
  qed
qed

subsection \<open>The value that decides\<close>

lemma fst_decide_verdict:
  "map_sum id fst (case decide matched m v of Inl e \<Rightarrow> Inl e | Inr (c, v') \<Rightarrow> Inr (c, v' # vs)) =
     (case matched of None \<Rightarrow> Inl Unmodelled | Some b \<Rightarrow> Inr b)"
proof (cases matched)
  case None
  then show ?thesis by (simp add: decide_def)
next
  case (Some b)
  then show ?thesis by (cases b) (simp_all add: decide_def)
qed

lemma verdict_filterVariant_loop:
  "map_sum id fst (filterVariant_loop f path m (v # vs)) =
     verdict f (resolveValue (variant_js v) path)"
proof (cases "resolveValue (variant_js v) path")
  case (Inl e)
  then show ?thesis by (simp add: verdict_def)
next
  case (Inr val)
  then show ?thesis
    using fst_decide_verdict[where matched = "f val" and m = m and v = v and vs = vs]
    by (simp only: filterVariant_loop.simps sum.case verdict_def)
qed

lemma verdict_filterScopedPrice_loop:
  "map_sum id fst (filterScopedPrice_loop f m (v # vs)) =
     verdict f (Inr (case scopedPrice v of
                       None \<Rightarrow> JUndefined
                     | Some sp \<Rightarrow> JNum (centAmount (scoped_value sp))))"
  using fst_decide_verdict[where matched = "f (case scopedPrice v of
                       None \<Rightarrow> JUndefined
                     | Some sp \<Rightarrow> JNum (centAmount (scoped_value sp)))" and m = m and v = v and vs = vs]
  by (simp only: filterScopedPrice_loop.simps Let_def sum.case verdict_def)

lemma attribute_loop_find_named:
  "attribute_loop f attrName path attrs =
     (case find (\<lambda>a. Some (attr_name a) = attrName) attrs of
        None \<Rightarrow> None
      | Some a \<Rightarrow>
          Some (case resolveValue (attr_value a) path of
                  Inl e \<Rightarrow> Inl e
                | Inr val \<Rightarrow> Inr (f val)))"
  by (induction attrs) (auto split: sum.splits)

lemma verdict_filterAttribute_loop:
  "map_sum id fst (filterAttribute_loop f attrName path m vs) =
     (case first_named attrName vs of
        None \<Rightarrow> Inr False
      | Some a \<Rightarrow> verdict f (resolveValue (attr_value a) path))"
proof (induction vs)
  case Nil
  then show ?case by (simp add: first_named_def)
next
  case (Cons v vs)
  have ih: "map_sum id fst (filterAttribute_loop f attrName path m vs) =
     (case first_named attrName vs of
        None \<Rightarrow> Inr False
      | Some a \<Rightarrow> verdict f (resolveValue (attr_value a) path))"
    by (rule Cons)
  show ?case
  proof (cases "attributes v")
    case None
    then have "first_named attrName (v # vs) = first_named attrName vs"
      by (simp add: first_named_def)
    moreover have "map_sum id fst (filterAttribute_loop f attrName path m (v # vs)) =
        map_sum id fst (filterAttribute_loop f attrName path m vs)"
      using None by (simp only: filterAttribute_loop.simps option.case map_sum_continue)
    ultimately show ?thesis using ih by (simp only:)
  next
    case (Some attrs)
    show ?thesis
    proof (cases "find (\<lambda>a. Some (attr_name a) = attrName) attrs")
      case None
      then have "first_named attrName (v # vs) = first_named attrName vs"
        using Some by (simp add: first_named_def find_append2)
      moreover have "map_sum id fst (filterAttribute_loop f attrName path m (v # vs)) =
          map_sum id fst (filterAttribute_loop f attrName path m vs)"
        using None Some
        by (simp only: filterAttribute_loop.simps option.case map_sum_continue
            attribute_loop_find_named)
      ultimately show ?thesis using ih by (simp only:)
    next
      case found: (Some a)
      then have fa: "first_named attrName (v # vs) = Some a"
        using Some by (simp add: first_named_def find_append2)
      have "map_sum id fst (filterAttribute_loop f attrName path m (v # vs)) =
          verdict f (resolveValue (attr_value a) path)"
      proof (cases "resolveValue (attr_value a) path")
        case (Inl e)
        then show ?thesis
          using found Some
          by (simp add: attribute_loop_find_named verdict_def)
      next
        case (Inr val)
        then show ?thesis
          using found Some fst_decide_verdict[where matched = "f val" and m = m and v = v and vs = vs]
          by (simp only: filterAttribute_loop.simps option.case sum.case
              attribute_loop_find_named verdict_def)
      qed
      then show ?thesis using fa by (simp only: option.case)
    qed
  qed
qed

lemma verdict_filterPrice_loop:
  "map_sum id fst (filterPrice_loop f m vs) =
     (case first_prices vs of
        None \<Rightarrow> Inr False
      | Some [] \<Rightarrow> Inl TypeError
      | Some (pr # others) \<Rightarrow> verdict f (Inr (JNum (centAmount (price_value pr)))))"
proof (induction vs)
  case Nil
  then show ?case by (simp add: first_prices_def)
next
  case (Cons v vs)
  have ih: "map_sum id fst (filterPrice_loop f m vs) =
     (case first_prices vs of
        None \<Rightarrow> Inr False
      | Some [] \<Rightarrow> Inl TypeError
      | Some (pr # others) \<Rightarrow> verdict f (Inr (JNum (centAmount (price_value pr)))))"
    by (rule Cons)
  show ?case
  proof (cases "prices v")
    case None
    then have "first_prices (v # vs) = first_prices vs"
      by (simp add: first_prices_def)
    moreover have "map_sum id fst (filterPrice_loop f m (v # vs)) =
        map_sum id fst (filterPrice_loop f m vs)"
      using None by (simp only: filterPrice_loop.simps option.case map_sum_continue)
    ultimately show ?thesis using ih by (simp only:)
  next
    case (Some ps)
    then have fp: "first_prices (v # vs) = Some ps"
      by (simp add: first_prices_def)
    show ?thesis
    proof (cases ps)
      case Nil
      then show ?thesis using Some fp by simp
    next
      case (Cons pr others)
      have "map_sum id fst (filterPrice_loop f m (v # vs)) =
          verdict f (Inr (JNum (centAmount (price_value pr))))"
        using Some Cons fst_decide_verdict[where matched = "f (JNum (centAmount (price_value pr)))" and m = m and v = v and vs = vs]
        by (simp only: filterPrice_loop.simps option.case list.case sum.case verdict_def)
      then show ?thesis using fp Cons by (simp only: option.case list.case)
    qed
  qed
qed

lemma resolve_sku:
  "resolveValue (variant_js v) (Some ''sku'') =
     Inr (case sku v of None \<Rightarrow> JUndefined | Some s \<Rightarrow> JStr s)"
  by (cases "sku v"; cases "key v"; cases "attributes v"; cases "prices v";
      cases "scopedPrice v"; cases "isMatchingVariant v")
     (simp_all add: resolveValue_def resolveValue_loop_drop variant_js_def field_def
        object_prototype_names_def)

lemma resolve_key:
  "resolveValue (variant_js v) (Some ''key'') =
     Inr (case key v of None \<Rightarrow> JUndefined | Some s \<Rightarrow> JStr s)"
  by (cases "sku v"; cases "key v"; cases "attributes v"; cases "prices v";
      cases "scopedPrice v"; cases "isMatchingVariant v")
     (simp_all add: resolveValue_def resolveValue_loop_drop variant_js_def field_def
        object_prototype_names_def)

lemma dispatch_filter:
  assumes "generateMatchFunc fltr = Some (Inr f)"
    and "source = takeWhile (\<lambda>c. c \<noteq> CHR '':'') fltr"
  shows "parseFilterExpression fltr stg = Some (Inr
         (if startsWith source ''variants.attributes'' then filterAttribute source stg f
          else if startsWith source ''variants.price'' then filterPrice source stg f
          else if startsWith source ''variants.scopedPrice'' then filterScopedPrice source stg f
          else if startsWith source ''variants.sku'' \<or> startsWith source ''variants.key''
            then filterVariant source stg f
          else (\<lambda>p markMatchingVariant. Inr (False, p))))"
  using assms by (simp add: parseFilterExpression_def filter_source)

section \<open>C1: the variant that decides\<close>

text \<open>
  C1, as stated, fails for the attribute and the price family: a first variant without an
  attribute of the requested name, or without prices, is passed over and a later variant
  decides. Here the master variant has no attributes (no prices) and the second variant
  matches: the filter returns true.
\<close>

theorem later_variant_counterexample:
  "map_option (map_sum id outcome)
     (applyFilter ''variants.attributes.color:\"red\"'' False
        (product_of plain_variant [colour ''red'']) False) = Some (Inr (Inr True)) \<and>
   map_option (map_sum id outcome)
     (applyFilter ''variants.price.centAmount:range(1 to 9)'' False
        (product_of plain_variant [priced 5]) False) = Some (Inr (Inr True))"
  by code_simp

text \<open>
  C1, amended: for every compiled filter, with match function \<open>f\<close>, and every product whose
  projection is present, with the candidates \<open>v # vs\<close> (master variant first). For the sku
  and key family the result is \<open>f\<close> applied to the value resolved from the first candidate
  (its sku for the source \<open>variants.sku\<close>, its key for \<open>variants.key\<close>), and for the source
  \<open>variants.scopedPrice.value.centAmount\<close> it is \<open>f\<close> applied to the centAmount of the
  scoped price of the first candidate, undefined when it has none: the result is false when
  \<open>f\<close> does not match that value, whatever the later variants are. For the attribute family
  the result is \<open>f\<close> applied to the value resolved from the first attribute of the requested
  name, looking through the candidates in order (a variant with no attributes, or with none
  of that name, is passed over); it is false when \<open>f\<close> does not match that value, and when
  no candidate has such an attribute. For the price family the result is \<open>f\<close> applied to
  the centAmount of the first price of the first candidate that has prices (a variant
  without prices is passed over); it is false when \<open>f\<close> does not match it, and when no
  candidate has prices; an empty list of prices raises a TypeError. An error of resolving
  the value is the error of the application.
\<close>

theorem deciding_variant:
  assumes "generateMatchFunc fltr = Some (Inr f)"
    and "source = takeWhile (\<lambda>c. c \<noteq> CHR '':'') fltr"
    and "attrName = nth_opt (split_limit (CHR ''.'') 4 source) 2"
    and "path = nth_opt (split_limit (CHR ''.'') 4 source) 3"
  shows
   "\<exists>pf. parseFilterExpression fltr stg = Some (Inr pf) \<and>
      (\<forall>p v vs m.
        (source = ''variants.sku'' \<longrightarrow>
           outcome (pf (storeVariants p stg (v # vs)) m) =
           verdict f (Inr (case sku v of None \<Rightarrow> JUndefined | Some s \<Rightarrow> JStr s))) \<and>
        (source = ''variants.key'' \<longrightarrow>
           outcome (pf (storeVariants p stg (v # vs)) m) =
           verdict f (Inr (case key v of None \<Rightarrow> JUndefined | Some s \<Rightarrow> JStr s))) \<and>
        (startsWith source ''variants.sku'' \<or> startsWith source ''variants.key'' \<longrightarrow>
           outcome (pf (storeVariants p stg (v # vs)) m) =
           verdict f (resolveValue (variant_js v)
                        (nth_opt (split_limit (CHR ''.'') 2 source) 1))) \<and>
        (source = ''variants.scopedPrice.value.centAmount'' \<longrightarrow>
           outcome (pf (storeVariants p stg (v # vs)) m) =
           verdict f (Inr (case scopedPrice v of
                             None \<Rightarrow> JUndefined
                           | Some sp \<Rightarrow> JNum (centAmount (scoped_value sp))))) \<and>
        (startsWith source ''variants.attributes'' \<longrightarrow>
           outcome (pf (storeVariants p stg (v # vs)) m) =
           (case first_named attrName (v # vs) of
              None \<Rightarrow> Inr False
            | Some a \<Rightarrow> verdict f (resolveValue (attr_value a) path))) \<and>
        (startsWith source ''variants.price'' \<longrightarrow>
           outcome (pf (storeVariants p stg (v # vs)) m) =
           (case first_prices (v # vs) of
              None \<Rightarrow> Inr False
            | Some [] \<Rightarrow> Inl TypeError
            | Some (pr # others) \<Rightarrow> verdict f (Inr (JNum (centAmount (price_value pr)))))))"
proof -
  let ?pf = "if startsWith source ''variants.attributes'' then filterAttribute source stg f
          else if startsWith source ''variants.price'' then filterPrice source stg f
          else if startsWith source ''variants.scopedPrice'' then filterScopedPrice source stg f
          else if startsWith source ''variants.sku'' \<or> startsWith source ''variants.key''
            then filterVariant source stg f
          else (\<lambda>p markMatchingVariant. Inr (False, p))"
  have pf: "parseFilterExpression fltr stg = Some (Inr ?pf)"
    using dispatch_filter[OF assms(1,2)] .
  have V: "outcome (?pf (storeVariants p stg (v # vs)) m) =
       verdict f (resolveValue (variant_js v) (nth_opt (split_limit (CHR ''.'') 2 source) 1))"
    if "startsWith source ''variants.sku'' \<or> startsWith source ''variants.key''" for p v vs m
    using variant_family_source[OF that] that
    by (simp only: if_True if_False outcome_filterVariant verdict_filterVariant_loop)
  have p2: "nth_opt (split_limit (CHR ''.'') 2 ''variants.sku'') 1 = Some ''sku''"
    "nth_opt (split_limit (CHR ''.'') 2 ''variants.key'') 1 = Some ''key''"
    by code_simp+
  have S: "outcome (?pf (storeVariants p stg (v # vs)) m) =
       verdict f (Inr (case sku v of None \<Rightarrow> JUndefined | Some s \<Rightarrow> JStr s))"
    if "source = ''variants.sku''" for p v vs m
  proof -
    have st: "startsWith source ''variants.sku''" using that by (simp add: startsWith_def)
    have e: "resolveValue (variant_js v) (nth_opt (split_limit (CHR ''.'') 2 source) 1) =
        Inr (case sku v of None \<Rightarrow> JUndefined | Some s \<Rightarrow> JStr s)"
      by (simp only: that p2 resolve_sku)
    show ?thesis
      unfolding e[symmetric] by (rule V[OF disjI1[OF st]])
  qed
  have K: "outcome (?pf (storeVariants p stg (v # vs)) m) =
       verdict f (Inr (case key v of None \<Rightarrow> JUndefined | Some s \<Rightarrow> JStr s))"
    if "source = ''variants.key''" for p v vs m
  proof -
    have st: "startsWith source ''variants.key''" using that by (simp add: startsWith_def)
    have e: "resolveValue (variant_js v) (nth_opt (split_limit (CHR ''.'') 2 source) 1) =
        Inr (case key v of None \<Rightarrow> JUndefined | Some s \<Rightarrow> JStr s)"
      by (simp only: that p2 resolve_key)
    show ?thesis
      unfolding e[symmetric] by (rule V[OF disjI2[OF st]])
  qed
  have B: "outcome (?pf (storeVariants p stg (v # vs)) m) =
       verdict f (Inr (case scopedPrice v of
                         None \<Rightarrow> JUndefined
                       | Some sp \<Rightarrow> JNum (centAmount (scoped_value sp))))"
    if "source = ''variants.scopedPrice.value.centAmount''" for p v vs m
  proof -
    have "\<not> startsWith source ''variants.attributes''"
      "\<not> startsWith source ''variants.price''"
      "startsWith source ''variants.scopedPrice''"
      using that by (simp_all add: startsWith_def)
    then show ?thesis
      using that
      by (simp only: if_True if_False outcome_filterScopedPrice verdict_filterScopedPrice_loop)
  qed
  have A: "outcome (?pf (storeVariants p stg (v # vs)) m) =
       (case first_named attrName (v # vs) of
          None \<Rightarrow> Inr False
        | Some a \<Rightarrow> verdict f (resolveValue (attr_value a) path))"
    if "startsWith source ''variants.attributes''" for p v vs m
    using that assms(3,4)
    by (simp only: if_True outcome_filterAttribute verdict_filterAttribute_loop)
  have P: "outcome (?pf (storeVariants p stg (v # vs)) m) =
       (case first_prices (v # vs) of
          None \<Rightarrow> Inr False
        | Some [] \<Rightarrow> Inl TypeError
        | Some (pr # others) \<Rightarrow> verdict f (Inr (JNum (centAmount (price_value pr)))))"
    if "startsWith source ''variants.price''" for p v vs m
    using that price_family_source[OF that]
    by (simp only: if_True if_False outcome_filterPrice verdict_filterPrice_loop)
  show ?thesis
    by (intro exI[of _ ?pf] conjI allI impI; (rule pf V S K B A P; assumption))
qed

theorem deciding_variant_witness:
  "(\<exists>pf. parseFilterExpression
            (''variants.sku'' @ '':'' @ literal_text (StrLit (CHR 0x22) ''A'')) False =
            Some (Inr pf) \<and>
      outcome (pf (storeVariants (product_of plain_variant []) False
                     [with_sku ''B'', with_sku ''A'']) False) = Inr False \<and>
      outcome (pf (storeVariants (product_of plain_variant []) False
                     [with_sku ''A'', with_sku ''B'']) False) = Inr True) \<and>
   (\<exists>pf. parseFilterExpression
            (''variants.scopedPrice.value.centAmount'' @ '':'' @ literal_text (IntLit ''5''))
            False = Some (Inr pf) \<and>
      outcome (pf (storeVariants (product_of plain_variant []) False
                     [scoped 7, scoped 5]) False) = Inr False \<and>
      outcome (pf (storeVariants (product_of plain_variant []) False
                     [scoped 5, scoped 7]) False) = Inr True) \<and>
   (\<exists>pf. parseFilterExpression
            (''variants.attributes.color'' @ '':'' @ literal_text (StrLit (CHR 0x22) ''red''))
            False = Some (Inr pf) \<and>
      outcome (pf (storeVariants (product_of plain_variant []) False
                     [colour ''green'', colour ''red'']) False) = Inr False \<and>
      outcome (pf (storeVariants (product_of plain_variant []) False
                     [plain_variant, colour ''red'']) False) = Inr True) \<and>
   (\<exists>pf. parseFilterExpression
            (''variants.price.centAmount'' @ '':range('' @ ''100'' @ '' to '' @ ''500'' @ '')'')
            False = Some (Inr pf) \<and>
      outcome (pf (storeVariants (product_of plain_variant []) False
                     [priced 50, priced 200]) False) = Inr False \<and>
      outcome (pf (storeVariants (product_of plain_variant []) False
                     [plain_variant, priced 200]) False) = Inr True)"
proof (intro conjI)
  have i: "identifier_text ''variants.sku''" by code_simp
  have g: "generateMatchFunc (''variants.sku'' @ '':'' @ literal_text (StrLit (CHR 0x22) ''A'')) =
      Some (Inr (\<lambda>obj. Some (strict_eq obj (literal_value (StrLit (CHR 0x22) ''A'')))))"
    by (rule literal_compiles[OF i]) simp
  have s: "''variants.sku'' = takeWhile (\<lambda>c. c \<noteq> CHR '':'')
      (''variants.sku'' @ '':'' @ literal_text (StrLit (CHR 0x22) ''A''))"
    by simp
  from deciding_variant[OF g s refl refl, of False]
  show "\<exists>pf. parseFilterExpression
            (''variants.sku'' @ '':'' @ literal_text (StrLit (CHR 0x22) ''A'')) False =
            Some (Inr pf) \<and>
      outcome (pf (storeVariants (product_of plain_variant []) False
                     [with_sku ''B'', with_sku ''A'']) False) = Inr False \<and>
      outcome (pf (storeVariants (product_of plain_variant []) False
                     [with_sku ''A'', with_sku ''B'']) False) = Inr True"
  proof (elim exE conjE, goal_cases)
    case (1 pf)
    note r = 1(2)[THEN spec, THEN spec, THEN spec, THEN spec, THEN conjunct1, THEN mp, OF refl]
    show ?case
      using 1(1)
      by (intro exI[of _ pf] conjI)
         (simp_all add: r verdict_def with_sku_def plain_variant_def)
  qed
next
  have i: "identifier_text ''variants.scopedPrice.value.centAmount''" by code_simp
  have w: "wf_literal (IntLit ''5'')" by code_simp
  have n: "parseInt ''5'' = 5" by code_simp
  have g: "generateMatchFunc
      (''variants.scopedPrice.value.centAmount'' @ '':'' @ literal_text (IntLit ''5'')) =
      Some (Inr (\<lambda>obj. Some (strict_eq obj (literal_value (IntLit ''5'')))))"
    by (rule literal_compiles[OF i w])
  have s: "''variants.scopedPrice.value.centAmount'' = takeWhile (\<lambda>c. c \<noteq> CHR '':'')
      (''variants.scopedPrice.value.centAmount'' @ '':'' @ literal_text (IntLit ''5''))"
    by simp
  from deciding_variant[OF g s refl refl, of False]
  show "\<exists>pf. parseFilterExpression
            (''variants.scopedPrice.value.centAmount'' @ '':'' @ literal_text (IntLit ''5''))
            False = Some (Inr pf) \<and>
      outcome (pf (storeVariants (product_of plain_variant []) False
                     [scoped 7, scoped 5]) False) = Inr False \<and>
      outcome (pf (storeVariants (product_of plain_variant []) False
                     [scoped 5, scoped 7]) False) = Inr True"
  proof (elim exE conjE, goal_cases)
    case (1 pf)
    note r = 1(2)[THEN spec, THEN spec, THEN spec, THEN spec, THEN conjunct2, THEN conjunct2,
        THEN conjunct2, THEN conjunct1, THEN mp, OF refl]
    show ?case
      using 1(1)
      by (intro exI[of _ pf] conjI)
         (simp_all add: r verdict_def scoped_def plain_variant_def n)
  qed
next
  have i: "identifier_text ''variants.attributes.color''" by code_simp
  have g: "generateMatchFunc
      (''variants.attributes.color'' @ '':'' @ literal_text (StrLit (CHR 0x22) ''red'')) =
      Some (Inr (\<lambda>obj. Some (strict_eq obj (literal_value (StrLit (CHR 0x22) ''red'')))))"
    by (rule literal_compiles[OF i]) simp
  have s: "''variants.attributes.color'' = takeWhile (\<lambda>c. c \<noteq> CHR '':'')
      (''variants.attributes.color'' @ '':'' @ literal_text (StrLit (CHR 0x22) ''red''))"
    by simp
  have n: "nth_opt (split_limit (CHR ''.'') 4 ''variants.attributes.color'') 2 = Some ''color''"
    "nth_opt (split_limit (CHR ''.'') 4 ''variants.attributes.color'') 3 = None"
    by code_simp+
  have a: "startsWith ''variants.attributes.color'' ''variants.attributes''"
    by code_simp
  from deciding_variant[OF g s refl refl, of False]
  show "\<exists>pf. parseFilterExpression
            (''variants.attributes.color'' @ '':'' @ literal_text (StrLit (CHR 0x22) ''red''))
            False = Some (Inr pf) \<and>
      outcome (pf (storeVariants (product_of plain_variant []) False
                     [colour ''green'', colour ''red'']) False) = Inr False \<and>
      outcome (pf (storeVariants (product_of plain_variant []) False
                     [plain_variant, colour ''red'']) False) = Inr True"
  proof (elim exE conjE, goal_cases)
    case (1 pf)
    note r = 1(2)[THEN spec, THEN spec, THEN spec, THEN spec, THEN conjunct2, THEN conjunct2,
        THEN conjunct2, THEN conjunct2, THEN conjunct1, THEN mp, OF a, unfolded n]
    show ?case
      using 1(1)
      by (intro exI[of _ pf] conjI)
         (simp_all add: r verdict_def first_named_def colour_def plain_variant_def
            resolveValue_def)
  qed
next
  have i: "identifier_text ''variants.price.centAmount''" by code_simp
  have w: "wf_literal (IntLit ''100'')" "wf_literal (IntLit ''500'')" by code_simp+
  have n: "parseInt ''100'' = 100" "parseInt ''500'' = 500" by code_simp+
  have g: "generateMatchFunc
      (''variants.price.centAmount'' @ '':range('' @ ''100'' @ '' to '' @ ''500'' @ '')'') =
      Some (Inr (\<lambda>obj. range_match (ENum (parseInt ''100'')) (ENum (parseInt ''500'')) obj))"
    by (rule range_compiles[OF i w])
  have s: "''variants.price.centAmount'' = takeWhile (\<lambda>c. c \<noteq> CHR '':'')
      (''variants.price.centAmount'' @ '':range('' @ ''100'' @ '' to '' @ ''500'' @ '')'')"
    by simp
  have a: "startsWith ''variants.price.centAmount'' ''variants.price''" by code_simp
  from deciding_variant[OF g s refl refl, of False]
  show "\<exists>pf. parseFilterExpression
            (''variants.price.centAmount'' @ '':range('' @ ''100'' @ '' to '' @ ''500'' @ '')'')
            False = Some (Inr pf) \<and>
      outcome (pf (storeVariants (product_of plain_variant []) False
                     [priced 50, priced 200]) False) = Inr False \<and>
      outcome (pf (storeVariants (product_of plain_variant []) False
                     [plain_variant, priced 200]) False) = Inr True"
  proof (elim exE conjE, goal_cases)
    case (1 pf)
    note r = 1(2)[THEN spec, THEN spec, THEN spec, THEN spec, THEN conjunct2, THEN conjunct2,
        THEN conjunct2, THEN conjunct2, THEN conjunct2, THEN mp, OF a]
    show ?case
      using 1(1)
      by (intro exI[of _ pf] conjI)
         (simp_all add: r verdict_def first_prices_def priced_def plain_variant_def n
            range_match_def js_ge_def js_le_def)
  qed
qed

section \<open>C2: a list of literals for an attribute\<close>

text \<open>
  C2, as stated, fails: no prefix rule is registered for the opening parenthesis, so the
  filter \<open>variants.attributes.color:("red","blue")\<close> does not compile; the parser raises
  its error for an unexpected token.
\<close>

theorem parenthesised_list_counterexample:
  "failure (generateMatchFunc ''variants.attributes.color:(\"red\",\"blue\")'') =
     Some (UnexpectedToken (Some LPAREN))"
  by code_simp

text \<open>
  C2, amended: for every filter of the form \<open>variants.attributes.<name>:<lit1>,<lit2>,...\<close>,
  without parentheses, where the name is made of letters, \<open>-\<close> and \<open>_\<close> and the literals are
  STRING or INT literals (an INT of a value up to \<open>2^53\<close>), compilation succeeds, and the predicate returns true on a product
  iff the first attribute of that name, looking through the candidate variants in order,
  has a value strictly equal to one of the literals. With the literals \<open>"red"\<close> and \<open>"blue"\<close>
  the predicate accepts the attribute values red and blue and rejects green.
\<close>

theorem attribute_list_filter:
  assumes "list_all ident_char name" and "CHR ''.'' \<notin> set name"
    and "lits \<noteq> []" and "list_all wf_literal lits"
  shows "\<exists>pf. parseFilterExpression
                (''variants.attributes.'' @ name @ '':'' @ comma_text lits) stg = Some (Inr pf) \<and>
           (\<forall>p v vs m. outcome (pf (storeVariants p stg (v # vs)) m) =
              Inr (case first_attribute name (v # vs) of
                     None \<Rightarrow> False
                   | Some a \<Rightarrow> array_includes (map literal_value lits) (attr_value a)))"
proof -
  let ?source = "''variants.attributes.'' @ name"
  let ?fltr = "''variants.attributes.'' @ name @ '':'' @ comma_text lits"
  obtain f where f: "generateMatchFunc ?fltr = Some (Inr f)"
    "\<And>obj. f obj = Some (array_includes (map literal_value lits) obj)"
    using list_compiles[OF identifier_text_prefix[OF assms(1)] assms(3,4)] by auto
  have src: "takeWhile (\<lambda>c. c \<noteq> CHR '':'') ?fltr = ?source"
    using takeWhile_no_sep[of "CHR '':''" ?source "comma_text lits"] ident_char_colon[OF assms(1)]
    by simp
  have pf: "parseFilterExpression ?fltr stg = Some (Inr (filterAttribute ?source stg f))"
    using f(1) src by (simp add: parseFilterExpression_def filter_source startsWith_def)
  have parts: "split_limit (CHR ''.'') 4 ?source = [''variants'', ''attributes'', name]"
    using split_on_no_sep[OF assms(2)] by (simp add: split_limit_def)
  have "outcome (filterAttribute ?source stg f (storeVariants p stg (v # vs)) m) =
      Inr (case first_attribute name (v # vs) of
             None \<Rightarrow> False
           | Some a \<Rightarrow> array_includes (map literal_value lits) (attr_value a))" for p v vs m
    unfolding outcome_filterAttribute parts
    using filterAttribute_loop_total[of f "array_includes (map literal_value lits)" name m "v # vs"]
      f(2)
    by (simp only: nth_opt.simps numeral_2_eq_2 numeral_3_eq_3)
  then show ?thesis using pf by blast
qed

theorem attribute_list_filter_witness:
  "\<exists>pf. parseFilterExpression
          (''variants.attributes.'' @ ''color'' @ '':'' @
             comma_text [StrLit (CHR 0x22) ''red'', StrLit (CHR 0x22) ''blue'']) False =
          Some (Inr pf) \<and>
     outcome (pf (storeVariants (product_of plain_variant []) False [colour ''red'']) False) =
       Inr True \<and>
     outcome (pf (storeVariants (product_of plain_variant []) False [colour ''blue'']) False) =
       Inr True \<and>
     outcome (pf (storeVariants (product_of plain_variant []) False [colour ''green'']) False) =
       Inr False \<and>
     outcome (pf (storeVariants (product_of plain_variant []) False
                    [plain_variant, colour ''red'']) False) = Inr True"
proof -
  have n: "list_all ident_char ''color''" "CHR ''.'' \<notin> set ''color''"
    by code_simp+
  have l: "[StrLit (CHR 0x22) ''red'', StrLit (CHR 0x22) ''blue''] \<noteq> []"
    "list_all wf_literal [StrLit (CHR 0x22) ''red'', StrLit (CHR 0x22) ''blue'']"
    by simp_all
  from attribute_list_filter[OF n l, of False] obtain pf where
    pf: "parseFilterExpression
          (''variants.attributes.'' @ ''color'' @ '':'' @
             comma_text [StrLit (CHR 0x22) ''red'', StrLit (CHR 0x22) ''blue'']) False =
          Some (Inr pf)"
    and r: "\<And>p v vs m. outcome (pf (storeVariants p False (v # vs)) m) =
              Inr (case first_attribute ''color'' (v # vs) of
                     None \<Rightarrow> False
                   | Some a \<Rightarrow> array_includes
                       (map literal_value [StrLit (CHR 0x22) ''red'', StrLit (CHR 0x22) ''blue''])
                       (attr_value a))"
    by blast
  show ?thesis
    using pf
    by (intro exI[of _ pf] conjI)
       (simp_all add: r first_attribute_def colour_def plain_variant_def array_includes_def)
qed

section \<open>C3: an unsupported path under scopedPrice\<close>

text \<open>
  C3, as stated, fails: the check of the source is in the body of the predicate that
  filterScopedPrice returns, so compilation does return a predicate for
  \<open>variants.scopedPrice.price:range(1 to 2)\<close>.
\<close>

theorem scopedPrice_subpath_counterexample:
  "returned (parseFilterExpression ''variants.scopedPrice.price:range(1 to 2)'' False)"
  by code_simp

text \<open>
  C3, amended: for a filter that generateMatchFunc compiles and whose source starts with
  \<open>variants.scopedPrice\<close> and is not \<open>variants.scopedPrice.value.centAmount\<close>,
  parseFilterExpression returns a predicate, and every application of that predicate, to
  any product, raises the descriptive error and returns no boolean.
\<close>

theorem scopedPrice_subpath_raises_on_application:
  assumes "generateMatchFunc fltr = Some (Inr f)"
    and "source = takeWhile (\<lambda>c. c \<noteq> CHR '':'') fltr"
    and "startsWith source ''variants.scopedPrice''"
    and "source \<noteq> ''variants.scopedPrice.value.centAmount''"
  shows "\<exists>pf. parseFilterExpression fltr stg = Some (Inr pf) \<and>
           (\<forall>p markMatchingVariant. pf p markMatchingVariant =
              Inl (Error ''Only scopedPrice.value.centAmount is currently supported in the mock''))"
proof -
  obtain r where r: "takeWhile (\<lambda>c. c \<noteq> CHR '':'') fltr = ''variants.scopedPrice'' @ r"
    using assms(2,3) startsWithE by blast
  have "\<not> startsWith source ''variants.attributes''" "\<not> startsWith source ''variants.price''"
    using assms(2) r by (simp_all add: startsWith_def)
  then have "parseFilterExpression fltr stg = Some (Inr (filterScopedPrice source stg f))"
    using assms by (simp add: parseFilterExpression_def filter_source)
  moreover have "filterScopedPrice source stg f p markMatchingVariant =
      Inl (Error ''Only scopedPrice.value.centAmount is currently supported in the mock'')"
    for p markMatchingVariant
    using assms(4) by (simp add: filterScopedPrice_def)
  ultimately show ?thesis by blast
qed

theorem scopedPrice_subpath_raises_on_application_witness:
  "\<exists>pf. parseFilterExpression ''variants.scopedPrice.price:range(1 to 2)'' False = Some (Inr pf) \<and>
           (\<forall>p markMatchingVariant. pf p markMatchingVariant =
              Inl (Error ''Only scopedPrice.value.centAmount is currently supported in the mock''))"
proof -
  have "returned (generateMatchFunc ''variants.scopedPrice.price:range(1 to 2)'')"
    by code_simp
  then obtain f where
    g: "generateMatchFunc ''variants.scopedPrice.price:range(1 to 2)'' = Some (Inr f)"
    using returnedE by blast
  show ?thesis
    by (rule scopedPrice_subpath_raises_on_application
          [OF g, where source = "''variants.scopedPrice.price''"])
       (simp_all add: startsWith_def)
qed

section \<open>C4: a source of no family\<close>

text \<open>
  C4, as stated, fails: the whole filter is compiled before the source is looked at, so a
  filter of no family that does not compile raises the syntax error; \<open>foo\<close> is one.
\<close>

theorem unknown_source_counterexample:
  "failure (parseFilterExpression ''foo'' False) =
     Some (Error (''Syntax error while parsing '' @ [CHR 0x27] @ ''foo'' @ [CHR 0x27] @ ''.''))"
  by code_simp

text \<open>
  C4, amended: for every filter that generateMatchFunc compiles and whose source starts
  with none of \<open>variants.attributes\<close>, \<open>variants.price\<close>, \<open>variants.scopedPrice\<close>,
  \<open>variants.sku\<close>, \<open>variants.key\<close>, parseFilterExpression returns a predicate that returns
  false on every product and every markMatchingVariant, and leaves the product as it is.
\<close>

theorem unknown_source_constant_false:
  assumes "generateMatchFunc fltr = Some (Inr f)"
    and "source = takeWhile (\<lambda>c. c \<noteq> CHR '':'') fltr"
    and "\<not> startsWith source ''variants.attributes''"
    and "\<not> startsWith source ''variants.price''"
    and "\<not> startsWith source ''variants.scopedPrice''"
    and "\<not> startsWith source ''variants.sku''"
    and "\<not> startsWith source ''variants.key''"
  shows "\<exists>pf. parseFilterExpression fltr stg = Some (Inr pf) \<and>
           (\<forall>p markMatchingVariant. pf p markMatchingVariant = Inr (False, p))"
  using assms by (simp add: parseFilterExpression_def filter_source)

theorem unknown_source_constant_false_witness:
  "\<exists>pf. parseFilterExpression ''foo:exists'' True = Some (Inr pf) \<and>
           (\<forall>p markMatchingVariant. pf p markMatchingVariant = Inr (False, p))"
proof -
  have "returned (generateMatchFunc ''foo:exists'')"
    by code_simp
  then obtain f where g: "generateMatchFunc ''foo:exists'' = Some (Inr f)"
    using returnedE by blast
  show ?thesis
    by (rule unknown_source_constant_false[OF g, where source = "''foo''"])
       (simp_all add: startsWith_def)
qed

section \<open>C5: the IDENTIFIER token\<close>

text \<open>
  C5, as stated, fails: the pattern of IDENTIFIER is \<open>[-_\.a-z]+\<close> and has no digits, so
  \<open>ABC123\<close> is the IDENTIFIER \<open>ABC\<close> followed by the INT \<open>123\<close>.
\<close>

theorem identifier_digits_counterexample:
  "peek ''ABC123'' =
     Inr (\<lparr>ttype = Some IDENTIFIER, tmatch = ''ABC'', tgroup = None\<rparr>, ''123'') \<and>
   peek ''123'' = Inr (\<lparr>ttype = Some INTEGER, tmatch = ''123'', tgroup = None\<rparr>, '''')"
  by code_simp

text \<open>
  C5, amended: where the input at the position of the lexer starts with a maximal run of
  one or more letters, \<open>-\<close>, \<open>_\<close> or \<open>.\<close>, and none of the four keyword patterns matches
  there, the tokenizer emits a single IDENTIFIER token whose text is that run. Digits are
  not part of the run.
\<close>

theorem identifier_token_run:
  assumes "run \<noteq> []" and "list_all ident_char run"
    and "case rest of [] \<Rightarrow> True | c # _ \<Rightarrow> \<not> ident_char c"
    and "re_keyword ''missing'' (run @ rest) = None"
    and "re_keyword ''exists'' (run @ rest) = None"
    and "re_keyword ''range'' (run @ rest) = None"
    and "re_keyword ''to'' (run @ rest) = None"
  shows "peek (run @ rest) =
           Inr (\<lparr>ttype = Some IDENTIFIER, tmatch = run, tgroup = None\<rparr>, rest) \<and>
         \<not> list_ex is_digit run"
proof -
  have "\<not> is_digit c" if "ident_char c" for c
    using that by (auto simp: ident_char_def is_digit_def is_lower_def is_upper_def code_def)
  then have "\<not> list_ex is_digit run"
    using assms(2) by (auto simp: list_all_iff list_ex_iff)
  then show ?thesis
    using peek_identifier_run[OF assms] by simp
qed

theorem identifier_token_run_witness:
  "peek (''ABC'' @ ''123'') =
     Inr (\<lparr>ttype = Some IDENTIFIER, tmatch = ''ABC'', tgroup = None\<rparr>, ''123'') \<and>
   \<not> list_ex is_digit ''ABC''"
  by (rule identifier_token_run) code_simp+

section \<open>C6: the colon rule\<close>

text \<open>
  C6, as stated, fails for a literal that the lexer reads as a FLOAT token: no prefix rule
  is registered for FLOAT, so \<open>P:1.5\<close> does not compile.
\<close>

theorem float_literal_counterexample:
  "failure (generateMatchFunc ''variants.attributes.weight:1.5'') =
     Some (UnexpectedToken (Some FLOAT))"
  by code_simp

text \<open>
  C6, amended: the colon infix rule parses its right-hand sub-expression at binding power
  99 and produces, for a list, the predicate "the value is an element of the list", for a
  function, that function, and otherwise the predicate "the value is strictly equal to the
  literal"; so for every path \<open>P\<close> that the lexer reads as one IDENTIFIER token and every
  STRING or INT literal \<open>V\<close>, compiling \<open>P:V\<close> yields a predicate that is true exactly on the
  values strictly equal to \<open>V\<close>.
\<close>

theorem colon_rule:
  assumes "identifier_text P" and "wf_literal V"
  shows
   "led parser \<lparr>ttype = Some COLON, tmatch = '':'', tgroup = None\<rparr> left s =
      (case parser (Fin 99) s of
         None \<Rightarrow> None
       | Some (Inl e) \<Rightarrow> Some (Inl e)
       | Some (Inr (e, s1)) \<Rightarrow>
           Some (Inr (EFn (case e of
                             EArr xs \<Rightarrow> (\<lambda>obj. Some (array_includes xs obj))
                           | EFn f \<Rightarrow> f
                           | _ \<Rightarrow> (\<lambda>obj. Some (strict_eq obj e))), s1))) \<and>
    applyMatch (P @ '':'' @ literal_text V) obj =
      Some (Inr (Some (case V of
                         StrLit q b \<Rightarrow> obj = JStr b
                       | IntLit ds \<Rightarrow> obj = JNum (parseInt ds))))"
proof -
  have 1: "led parser \<lparr>ttype = Some COLON, tmatch = '':'', tgroup = None\<rparr> left s =
      (case parser (Fin 99) s of
         None \<Rightarrow> None
       | Some (Inl e) \<Rightarrow> Some (Inl e)
       | Some (Inr (e, s1)) \<Rightarrow>
           Some (Inr (EFn (case e of
                             EArr xs \<Rightarrow> (\<lambda>obj. Some (array_includes xs obj))
                           | EFn f \<Rightarrow> f
                           | _ \<Rightarrow> (\<lambda>obj. Some (strict_eq obj e))), s1)))"
    by (auto simp: led_def bp_def split: option.splits sum.splits expr.splits)
  have "strict_eq obj (literal_value V) =
      (case V of StrLit q b \<Rightarrow> obj = JStr b | IntLit ds \<Rightarrow> obj = JNum (parseInt ds))"
    by (cases V; cases obj) auto
  then have 2: "applyMatch (P @ '':'' @ literal_text V) obj =
      Some (Inr (Some (case V of
                         StrLit q b \<Rightarrow> obj = JStr b
                       | IntLit ds \<Rightarrow> obj = JNum (parseInt ds))))"
    using literal_compiles[OF assms] by (simp add: applyMatch_def)
  show ?thesis using 1 2 by blast
qed

theorem colon_rule_witness:
  "applyMatch (''variants.sku'' @ '':'' @ literal_text (StrLit (CHR 0x22) ''ABC123''))
      (JStr ''ABC123'') = Some (Inr (Some True)) \<and>
   applyMatch (''variants.sku'' @ '':'' @ literal_text (StrLit (CHR 0x22) ''ABC123''))
      (JStr ''ABC124'') = Some (Inr (Some False))"
proof -
  have i: "identifier_text ''variants.sku''" by code_simp
  have w: "wf_literal (StrLit (CHR 0x22) ''ABC123'')" by simp
  show ?thesis
    using colon_rule[OF i w, of "parse 0" "EUndef" "[]" "JStr ''ABC123''"]
      colon_rule[OF i w, of "parse 0" "EUndef" "[]" "JStr ''ABC124''"]
    by simp
qed

section \<open>C7: the range predicate\<close>

text \<open>
  C7, as stated, fails for the price family: a first variant without prices is passed
  over, so a product whose master variant has no prices and whose second variant has the
  price 200 matches \<open>variants.price.centAmount:range(100 to 500)\<close>.
\<close>

theorem price_range_counterexample:
  "map_option (map_sum id outcome)
     (applyFilter ''variants.price.centAmount:range(100 to 500)'' False
        (product_of plain_variant [priced 200]) False) = Some (Inr (Inr True))"
  by code_simp

text \<open>
  C7, amended: the predicate of \<open>range(A to B)\<close>, for INT literals \<open>A\<close> and \<open>B\<close> of a value
  up to \<open>2^53\<close>, is inclusive at both ends: on a number \<open>n\<close> it is true iff \<open>A \<le> n\<close> and
  \<open>n \<le> B\<close>. For the price family, \<open>variants.price.centAmount:range(A to B)\<close> matches a
  product exactly when the first price of the first variant that has prices lies in
  \<open>[A, B]\<close> (a TypeError when its list of prices is empty, false when no variant has
  prices); with 100 and 500, the prices 100 and 500 pass and 99 and 501 fail.
\<close>

theorem range_inclusive:
  assumes "identifier_text P" and "wf_literal (IntLit A)" and "wf_literal (IntLit B)"
  shows
   "applyMatch (P @ '':range('' @ A @ '' to '' @ B @ '')'') (JNum n) =
      Some (Inr (Some (parseInt A \<le> n \<and> n \<le> parseInt B))) \<and>
    (\<exists>pf. parseFilterExpression
             (''variants.price.centAmount:range('' @ A @ '' to '' @ B @ '')'') stg =
             Some (Inr pf) \<and>
       (\<forall>p v vs m. outcome (pf (storeVariants p stg (v # vs)) m) =
          (case first_prices (v # vs) of
             None \<Rightarrow> Inr False
           | Some [] \<Rightarrow> Inl TypeError
           | Some (pr # others) \<Rightarrow>
               Inr (parseInt A \<le> centAmount (price_value pr) \<and>
                    centAmount (price_value pr) \<le> parseInt B))))"
proof -
  have rm: "range_match (ENum a) (ENum b) (JNum k) = Some (a \<le> k \<and> k \<le> b)" for a b k
    by (cases "a \<le> k") (simp_all add: range_match_def js_ge_def js_le_def)
  have 1: "applyMatch (P @ '':range('' @ A @ '' to '' @ B @ '')'') (JNum n) =
      Some (Inr (Some (parseInt A \<le> n \<and> n \<le> parseInt B)))"
    using range_compiles[OF assms] by (simp add: applyMatch_def rm)
  let ?source = "''variants.price.centAmount''"
  let ?fltr = "''variants.price.centAmount:range('' @ A @ '' to '' @ B @ '')''"
  let ?f = "\<lambda>obj. range_match (ENum (parseInt A)) (ENum (parseInt B)) obj"
  have i: "identifier_text ?source" by code_simp
  have g: "generateMatchFunc ?fltr = Some (Inr ?f)"
    using range_compiles[OF i assms(2,3)] by simp
  have pf: "parseFilterExpression ?fltr stg = Some (Inr (filterPrice ?source stg ?f))"
    using g by (simp add: parseFilterExpression_def filter_source startsWith_def)
  have "outcome (filterPrice ?source stg ?f (storeVariants p stg (v # vs)) m) =
      (case first_prices (v # vs) of
         None \<Rightarrow> Inr False
       | Some [] \<Rightarrow> Inl TypeError
       | Some (pr # others) \<Rightarrow>
           Inr (parseInt A \<le> centAmount (price_value pr) \<and>
                centAmount (price_value pr) \<le> parseInt B))" for p v vs m
    unfolding outcome_filterPrice
    by (rule filterPrice_loop_total) (rule rm)
  then show ?thesis using 1 pf by blast
qed

theorem range_inclusive_witness:
  "applyMatch (''variants.price.centAmount'' @ '':range('' @ ''100'' @ '' to '' @ ''500'' @ '')'')
      (JNum 100) = Some (Inr (Some True)) \<and>
   (\<exists>pf. parseFilterExpression
             (''variants.price.centAmount:range('' @ ''100'' @ '' to '' @ ''500'' @ '')'') False =
             Some (Inr pf) \<and>
      outcome (pf (storeVariants (product_of plain_variant []) False [priced 99]) False) =
        Inr False \<and>
      outcome (pf (storeVariants (product_of plain_variant []) False [priced 100]) False) =
        Inr True \<and>
      outcome (pf (storeVariants (product_of plain_variant []) False [priced 500]) False) =
        Inr True \<and>
      outcome (pf (storeVariants (product_of plain_variant []) False [priced 501]) False) =
        Inr False)"
proof -
  have i: "identifier_text ''variants.price.centAmount''" by code_simp
  have a: "wf_literal (IntLit ''100'')" by code_simp
  have b: "wf_literal (IntLit ''500'')" by code_simp
  have pa: "parseInt ''100'' = 100" and pb: "parseInt ''500'' = 500" by code_simp+
  from range_inclusive[OF i a b, of 100 False] obtain pf where
    m: "applyMatch (''variants.price.centAmount'' @ '':range('' @ ''100'' @ '' to '' @ ''500'' @ '')'')
      (JNum 100) = Some (Inr (Some (parseInt ''100'' \<le> 100 \<and> 100 \<le> parseInt ''500'')))"
    and pf: "parseFilterExpression
             (''variants.price.centAmount:range('' @ ''100'' @ '' to '' @ ''500'' @ '')'') False =
             Some (Inr pf)"
    and r: "\<And>p v vs m. outcome (pf (storeVariants p False (v # vs)) m) =
          (case first_prices (v # vs) of
             None \<Rightarrow> Inr False
           | Some [] \<Rightarrow> Inl TypeError
           | Some (pr # others) \<Rightarrow>
               Inr (parseInt ''100'' \<le> centAmount (price_value pr) \<and>
                    centAmount (price_value pr) \<le> parseInt ''500''))"
    by blast
  have 1: "applyMatch (''variants.price.centAmount'' @ '':range('' @ ''100'' @ '' to '' @ ''500'' @ '')'')
      (JNum 100) = Some (Inr (Some True))"
    using m by (simp only: pa pb) simp
  have 2: "outcome (pf (storeVariants (product_of plain_variant []) False [priced k]) False) =
      Inr (100 \<le> k \<and> k \<le> 500)" for k
    by (simp add: r first_prices_def priced_def plain_variant_def pa pb)
  show ?thesis
    using 1 pf 2[of 99] 2[of 100] 2[of 500] 2[of 501] by (intro conjI exI[of _ pf]) simp_all
qed

section \<open>C8: the path resolver\<close>

text \<open>
  C8, as stated, fails for the empty string: resolveValue returns the root unchanged only
  for the path \<open>undefined\<close>. The empty string splits into one empty segment, and the root
  is indexed with it: on an object without a property of the empty name the result is
  \<open>undefined\<close>, not the root.
\<close>

theorem resolveValue_empty_path_counterexample:
  "resolveValue (JObj [(''sku'', JStr ''A'')]) (Some '''') = Inr JUndefined"
  by code_simp

text \<open>
  C8, amended: for every root value, the path resolver returns the root unchanged when the
  path is \<open>undefined\<close>; for every path string it returns the result of indexing into the
  root with each dot-separated segment in left-to-right order (an error of an indexing
  step is the error of the resolver); the empty string is the single empty segment.
\<close>

theorem resolveValue_segments:
  "resolveValue obj None = Inr obj \<and>
   resolveValue obj (Some path) = index_all obj (split_on (CHR ''.'') path) \<and>
   resolveValue obj (Some '''') = js_get obj ''''"
  by (simp add: resolveValue_def resolveValue_loop_drop split: sum.splits)

section \<open>C9: the syntax error\<close>

text \<open>
  C9 (code defect). The claim: when the final parse result is not a function, the error
  identifies the filter string and the column at which parsing stalled. generateMatchFunc
  computes a column and leaves it out of the message: on the filter \<open>variants.sku\<close>, whose
  parse result is a string, the error is \<open>Syntax error while parsing 'variants.sku'.\<close> and
  names no column.
\<close>

theorem syntax_error_without_column:
  "failure (generateMatchFunc ''variants.sku'') =
     Some (Error (''Syntax error while parsing '' @ [CHR 0x27] @ ''variants.sku'' @
                  [CHR 0x27] @ ''.''))"
  by code_simp

section \<open>C10: an absent projection\<close>

text \<open>
  C10, as stated, fails for one family: a scopedPrice filter with an unsupported source
  raises its own error before getVariants is called, and that error is no TypeError.
\<close>

theorem absent_projection_counterexample:
  "applyFilter ''variants.scopedPrice.price:range(1 to 2)'' False no_projection False =
     Some (Inr (Inl (Error
       ''Only scopedPrice.value.centAmount is currently supported in the mock'')))"
  by code_simp

text \<open>
  C10, amended: for every compiled filter of the attribute, price, sku or key family, and
  of the scopedPrice family with the source \<open>variants.scopedPrice.value.centAmount\<close>, and
  every product in which the projection that the staged flag selects is absent, applying
  the filter raises a TypeError.
\<close>

theorem absent_projection_TypeError:
  assumes "generateMatchFunc fltr = Some (Inr f)"
    and "source = takeWhile (\<lambda>c. c \<noteq> CHR '':'') fltr"
    and "startsWith source ''variants.attributes'' \<or> startsWith source ''variants.price'' \<or>
         source = ''variants.scopedPrice.value.centAmount'' \<or>
         startsWith source ''variants.sku'' \<or> startsWith source ''variants.key''"
    and "(if stg then staged (masterData p) else current (masterData p)) = None"
  shows "\<exists>pf. parseFilterExpression fltr stg = Some (Inr pf) \<and>
           pf p markMatchingVariant = Inl TypeError"
proof -
  have gv: "getVariants p stg = Inl TypeError"
    using assms(4) by (simp add: getVariants_def)
  consider (a) "startsWith source ''variants.attributes''"
    | (b) "\<not> startsWith source ''variants.attributes''" "startsWith source ''variants.price''"
    | (c) "source = ''variants.scopedPrice.value.centAmount''"
    | (d) "\<not> startsWith source ''variants.attributes''" "\<not> startsWith source ''variants.price''"
          "\<not> startsWith source ''variants.scopedPrice''"
          "startsWith source ''variants.sku'' \<or> startsWith source ''variants.key''"
    | (e) "startsWith source ''variants.scopedPrice''"
          "startsWith source ''variants.sku'' \<or> startsWith source ''variants.key''"
    using assms(3) by blast
  then show ?thesis
  proof cases
    case a
    then show ?thesis using assms(1,2) gv
      by (simp add: parseFilterExpression_def filter_source filterAttribute_def Let_def)
  next
    case b
    then show ?thesis using assms(1,2) gv
      by (simp add: parseFilterExpression_def filter_source filterPrice_def)
  next
    case c
    then show ?thesis using assms(1,2) gv
      by (simp add: parseFilterExpression_def filter_source filterScopedPrice_def startsWith_def)
  next
    case d
    then show ?thesis using assms(1,2) gv
      by (simp add: parseFilterExpression_def filter_source filterVariant_def Let_def)
  next
    case e
    then have False by (auto dest!: startsWithE)
    then show ?thesis ..
  qed
qed

theorem absent_projection_TypeError_witness:
  "\<exists>pf. parseFilterExpression ''variants.sku:exists'' True = Some (Inr pf) \<and>
           pf no_projection False = Inl TypeError"
proof -
  have "returned (generateMatchFunc ''variants.sku:exists'')"
    by code_simp
  then obtain f where g: "generateMatchFunc ''variants.sku:exists'' = Some (Inr f)"
    using returnedE by blast
  show ?thesis
    by (rule absent_projection_TypeError[OF g, where source = "''variants.sku''"])
       (simp_all add: startsWith_def no_projection_def)
qed

end
